theory Spec2Isabelle
  imports Complex_Main "HOL-Library.Multiset" "HOL-Library.Sublist"
begin

section \<open>Rectangles and elements\<close>

text \<open>
  The interface \<open>ElementRect\<close> of \<open>src/index.ts\<close>: an origin, an optional width and an
  optional height. Coordinates are integers, as the data model of the quadtree has them.
  The fields carry the prefix \<open>rect_\<close>, since \<open>x\<close> and \<open>y\<close> are wanted as variables.
\<close>

record ElementRect =
  rect_x :: int
  rect_y :: int
  rect_width :: "int option"
  rect_height :: "int option"

text \<open>
  An element held by a tree is an object: the tree compares elements by reference
  (\<open>indexOf\<close>, \<open>!==\<close>). The field \<open>ident\<close> is the identity of the object, so that two
  elements are the same object exactly when the records are equal.
\<close>

record Element = ElementRect +
  ident :: nat

datatype Direction = NW | NE | SW | SE

text \<open>The directions in the key order of the object literals of the source.\<close>

definition directions :: "Direction list" where
  "directions = [NW, NE, SW, SE]"

text \<open>\<open>item.width != null ? item.width : 1\<close>, and the same for the height.\<close>

definition widthOr1 :: "'a ElementRect_scheme \<Rightarrow> int" where
  "widthOr1 item = (case rect_width item of None \<Rightarrow> 1 | Some w \<Rightarrow> w)"

definition heightOr1 :: "'a ElementRect_scheme \<Rightarrow> int" where
  "heightOr1 item = (case rect_height item of None \<Rightarrow> 1 | Some h \<Rightarrow> h)"

text \<open>
  \<open>Math.floor(n / 2)\<close> and \<open>Math.ceil(n / 2)\<close> on an integer \<open>n\<close>, in integer arithmetic;
  \<open>floorHalf_real\<close> and \<open>ceilHalf_real\<close> below relate them to the division of the source.
\<close>

definition floorHalf :: "int \<Rightarrow> int" where
  "floorHalf n = n div 2"

definition ceilHalf :: "int \<Rightarrow> int" where
  "ceilHalf n = - ((- n) div 2)"

text \<open>\<open>getCenter\<close>: the centre of a rectangle, as a pair.\<close>

definition getCenter :: "'a ElementRect_scheme \<Rightarrow> int \<times> int" where
  "getCenter item = (floorHalf (widthOr1 item) + rect_x item, floorHalf (heightOr1 item) + rect_y item)"

text \<open>\<open>boundingBoxCollision\<close>: the default collision predicate.\<close>

definition boundingBoxCollision :: "'a ElementRect_scheme \<Rightarrow> 'b ElementRect_scheme \<Rightarrow> bool" where
  "boundingBoxCollision elt1 elt2 =
     (\<not> (rect_x elt1 \<ge> rect_x elt2 + widthOr1 elt2
        \<or> rect_x elt1 + widthOr1 elt1 \<le> rect_x elt2
        \<or> rect_y elt1 \<ge> rect_y elt2 + heightOr1 elt2
        \<or> rect_y elt1 + heightOr1 elt1 \<le> rect_y elt2))"

text \<open>
  The half-open extent of a rectangle, as the set of the unit cells it covers:
  \<open>[x, x + width) \<times> [y, y + height)\<close>. This is the reading of the specification, stated
  apart from the code, against which the predicate of the source is compared.
\<close>

definition extent :: "'a ElementRect_scheme \<Rightarrow> (int \<times> int) set" where
  "extent r = {p. rect_x r \<le> fst p \<and> fst p < rect_x r + widthOr1 r
                \<and> rect_y r \<le> snd p \<and> snd p < rect_y r + heightOr1 r}"

definition extents_overlap :: "'a ElementRect_scheme \<Rightarrow> 'b ElementRect_scheme \<Rightarrow> bool" where
  "extents_overlap a b = (extent a \<inter> extent b \<noteq> {})"

definition touch_at_edge :: "'a ElementRect_scheme \<Rightarrow> 'b ElementRect_scheme \<Rightarrow> bool" where
  "touch_at_edge a b =
     (rect_x a + widthOr1 a = rect_x b \<or> rect_x b + widthOr1 b = rect_x a
      \<or> rect_y a + heightOr1 a = rect_y b \<or> rect_y b + heightOr1 b = rect_y a)"

section \<open>Errors\<close>

text \<open>
  Every \<open>throw\<close> of the source is a value of this type. \<open>TypeError\<close> is the error of the
  runtime when a property of \<open>null\<close> or \<open>undefined\<close> is read.
\<close>

datatype error =
    MissingDimensions
  | InvalidDimensions
  | InvalidCoordinates
  | InvalidMaxElements
  | NotAnElement
  | MissingCoordinates
  | InvalidExtent
  | TypeError

section \<open>Nodes\<close>

text \<open>
  The scalar fields of the class \<open>QuadTree\<close> are a record; the four child slots
  (\<open>children[d].tree\<close>, \<open>null\<close> until the child is created) are the options of the
  datatype. The \<open>create\<close> closure of a slot reads only the fields of its node, and is
  the function \<open>create\<close> below.
\<close>

record Node =
  tree_x :: int
  tree_y :: int
  tree_width :: int
  tree_height :: int
  maxElements :: int
  contents :: "Element list"
  oversized :: "Element list"
  tree_size :: int

datatype QuadTree =
  QuadTree (node: Node) (childNW: "QuadTree option") (childNE: "QuadTree option")
           (childSW: "QuadTree option") (childSE: "QuadTree option")

text \<open>\<open>tree.children[d].tree\<close>, read and written.\<close>

fun child :: "Direction \<Rightarrow> QuadTree \<Rightarrow> QuadTree option" where
  "child NW t = childNW t"
| "child NE t = childNE t"
| "child SW t = childSW t"
| "child SE t = childSE t"

declare child.simps [simp del]

fun set_child :: "Direction \<Rightarrow> QuadTree option \<Rightarrow> QuadTree \<Rightarrow> QuadTree" where
  "set_child NW c (QuadTree n nw ne sw se) = QuadTree n c ne sw se"
| "set_child NE c (QuadTree n nw ne sw se) = QuadTree n nw c sw se"
| "set_child SW c (QuadTree n nw ne sw se) = QuadTree n nw ne c se"
| "set_child SE c (QuadTree n nw ne sw se) = QuadTree n nw ne sw c"

text \<open>A tree read as a rectangle (\<open>class QuadTree implements ElementRect\<close>).\<close>

definition treeRect :: "QuadTree \<Rightarrow> ElementRect" where
  "treeRect t = \<lparr>rect_x = tree_x (node t), rect_y = tree_y (node t),
                 rect_width = Some (tree_width (node t)), rect_height = Some (tree_height (node t))\<rparr>"

section \<open>Construction\<close>

text \<open>
  The parameter object of the constructor. A field that is absent (or \<open>null\<close>) is \<open>None\<close>.
\<close>

record QuadTreeUserOptions =
  opt_width :: "int option"
  opt_height :: "int option"
  opt_x :: "int option"
  opt_y :: "int option"
  opt_maxElements :: "int option"

text \<open>\<open>v || d\<close> on an optional number: \<open>d\<close> when \<open>v\<close> is absent or zero.\<close>

definition orElse :: "int option \<Rightarrow> int \<Rightarrow> int" where
  "orElse v d = (case v of None \<Rightarrow> d | Some n \<Rightarrow> if n = 0 then d else n)"

text \<open>
  The constructor. \<open>Number.isInteger\<close> holds of every coordinate of this model, so the
  third check never fires here; it is kept in its place.
\<close>

definition isInteger :: "int \<Rightarrow> bool" where
  "isInteger n = True"

definition new_QuadTree :: "QuadTreeUserOptions \<Rightarrow> error + QuadTree" where
  "new_QuadTree opts =
     (case (opt_width opts, opt_height opts) of
        (Some w, Some h) \<Rightarrow>
          (let x = orElse (opt_x opts) 0;
               y = orElse (opt_y opts) 0;
               m = orElse (opt_maxElements opts) 1
           in if w < 1 \<or> h < 1 then Inl InvalidDimensions
              else if \<not> isInteger x \<or> \<not> isInteger y then Inl InvalidCoordinates
              else if m < 1 then Inl InvalidMaxElements
              else Inr (QuadTree \<lparr>tree_x = x, tree_y = y, tree_width = w, tree_height = h,
                                   maxElements = m, contents = [], oversized = [], tree_size = 0\<rparr>
                                 None None None None))
      | _ \<Rightarrow> Inl MissingDimensions)"

section \<open>Geometry of the quadrants\<close>

text \<open>\<open>splitTree\<close>: the four quadrant rectangles of a node.\<close>

definition splitTree :: "QuadTree \<Rightarrow> Direction \<Rightarrow> ElementRect" where
  "splitTree tree d =
     (let leftWidth = max (floorHalf (tree_width (node tree))) 1;
          rightWidth = ceilHalf (tree_width (node tree));
          topHeight = max (floorHalf (tree_height (node tree))) 1;
          bottomHeight = ceilHalf (tree_height (node tree))
      in case d of
           NW \<Rightarrow> \<lparr>rect_x = tree_x (node tree), rect_y = tree_y (node tree),
                   rect_width = Some leftWidth, rect_height = Some topHeight\<rparr>
         | NE \<Rightarrow> \<lparr>rect_x = tree_x (node tree) + leftWidth, rect_y = tree_y (node tree),
                   rect_width = Some rightWidth, rect_height = Some topHeight\<rparr>
         | SW \<Rightarrow> \<lparr>rect_x = tree_x (node tree), rect_y = tree_y (node tree) + topHeight,
                   rect_width = Some leftWidth, rect_height = Some bottomHeight\<rparr>
         | SE \<Rightarrow> \<lparr>rect_x = tree_x (node tree) + leftWidth, rect_y = tree_y (node tree) + topHeight,
                   rect_width = Some rightWidth, rect_height = Some bottomHeight\<rparr>)"

text \<open>\<open>fitting\<close>: the quadrants an element collides with, in the order of the keys.\<close>

definition fitting :: "'a ElementRect_scheme \<Rightarrow> QuadTree \<Rightarrow> Direction list" where
  "fitting element tree = filter (\<lambda>d. boundingBoxCollision element (splitTree tree d)) directions"

text \<open>\<open>calculateDirection\<close>: the quadrant of an element by the centre of the node.\<close>

definition calculateDirection :: "'a ElementRect_scheme \<Rightarrow> QuadTree \<Rightarrow> Direction" where
  "calculateDirection element tree =
     (let quadCenter = getCenter (treeRect tree)
      in if rect_x element < fst quadCenter
         then (if rect_y element < snd quadCenter then NW else SW)
         else (if rect_y element < snd quadCenter then NE else SE))"

text \<open>
  The choice of the children to visit in \<open>colliding\<close> and in \<open>onCollision\<close> (the same
  lines in both): the fitting quadrants, and when there are none the special case for
  an item on the right or bottom side of the node.
\<close>

definition collisionFits :: "'a ElementRect_scheme \<Rightarrow> QuadTree \<Rightarrow> Direction list" where
  "collisionFits item topNode =
     (let fits = fitting item topNode
      in if length fits = 0
         then (let fits1 = (if rect_x item \<ge> tree_x (node topNode) + tree_width (node topNode) then [NE] else []);
                   fits2 = (if rect_y item \<ge> tree_y (node topNode) + tree_height (node topNode)
                            then fits1 @ [SW] else fits1)
               in if length fits2 > 0
                  then (if length fits2 = 1 then fits2 @ [SE] else [SE])
                  else fits2)
         else fits)"

section \<open>Facts about the geometry\<close>

lemma floorHalf_real: "floorHalf n = \<lfloor>real_of_int n / 2\<rfloor>"
  unfolding floorHalf_def by (simp add: floor_divide_of_int_eq [of n 2, simplified])

lemma ceilHalf_real: "ceilHalf n = \<lceil>real_of_int n / 2\<rceil>"
proof -
  have "\<lceil>real_of_int n / 2\<rceil> = - \<lfloor>- (real_of_int n / 2)\<rfloor>"
    by (simp add: ceiling_def)
  also have "- (real_of_int n / 2) = real_of_int (- n) / 2"
    by simp
  also have "\<lfloor>real_of_int (- n) / 2\<rfloor> = (- n) div 2"
    using floor_divide_of_int_eq [of "- n" 2] by simp
  finally show ?thesis
    by (simp add: ceilHalf_def)
qed

lemma halves_sum: "floorHalf n + ceilHalf n = n"
  unfolding floorHalf_def ceilHalf_def by presburger

lemma floorHalf_pos: "2 \<le> n \<Longrightarrow> 1 \<le> floorHalf n"
  unfolding floorHalf_def by presburger

lemma ceilHalf_pos: "1 \<le> n \<Longrightarrow> 1 \<le> ceilHalf n"
  unfolding ceilHalf_def by presburger

lemma ceilHalf_less: "2 \<le> n \<Longrightarrow> ceilHalf n < n"
  unfolding ceilHalf_def by presburger

lemma floorHalf_less: "1 \<le> n \<Longrightarrow> floorHalf n < n"
  unfolding floorHalf_def by presburger

lemma splitTree_simps:
  "rect_x (splitTree t NW) = tree_x (node t)"
  "rect_y (splitTree t NW) = tree_y (node t)"
  "rect_x (splitTree t NE) = tree_x (node t) + max (floorHalf (tree_width (node t))) 1"
  "rect_y (splitTree t NE) = tree_y (node t)"
  "rect_x (splitTree t SW) = tree_x (node t)"
  "rect_y (splitTree t SW) = tree_y (node t) + max (floorHalf (tree_height (node t))) 1"
  "rect_x (splitTree t SE) = tree_x (node t) + max (floorHalf (tree_width (node t))) 1"
  "rect_y (splitTree t SE) = tree_y (node t) + max (floorHalf (tree_height (node t))) 1"
  "widthOr1 (splitTree t NW) = max (floorHalf (tree_width (node t))) 1"
  "widthOr1 (splitTree t SW) = max (floorHalf (tree_width (node t))) 1"
  "widthOr1 (splitTree t NE) = ceilHalf (tree_width (node t))"
  "widthOr1 (splitTree t SE) = ceilHalf (tree_width (node t))"
  "heightOr1 (splitTree t NW) = max (floorHalf (tree_height (node t))) 1"
  "heightOr1 (splitTree t NE) = max (floorHalf (tree_height (node t))) 1"
  "heightOr1 (splitTree t SW) = ceilHalf (tree_height (node t))"
  "heightOr1 (splitTree t SE) = ceilHalf (tree_height (node t))"
  by (simp_all add: splitTree_def widthOr1_def heightOr1_def Let_def)

section \<open>Items as the callers pass them\<close>

text \<open>
  What a caller passes as an element: a value that is not an object, \<open>null\<close> (whose type
  is \<open>"object"\<close>, and whose properties cannot be read), or an object, of which the model
  keeps the four fields the tree reads and the identity. A field that is absent, \<open>null\<close>
  or \<open>undefined\<close> is \<open>None\<close>.
\<close>

datatype Item =
    NotObject
  | NullValue
  | Object (obj_x: "int option") (obj_y: "int option")
           (obj_width: "int option") (obj_height: "int option") (obj_ident: nat)

text \<open>
  \<open>validateElement\<close>. The source checks and returns nothing; the model returns the
  element with its coordinates, which the checks have shown to be there.
\<close>

definition validateElement :: "Item \<Rightarrow> error + Element" where
  "validateElement element =
     (case element of
        NotObject \<Rightarrow> Inl NotAnElement
      | NullValue \<Rightarrow> Inl TypeError
      | Object x y w h i \<Rightarrow>
          (case (x, y) of
             (Some vx, Some vy) \<Rightarrow>
               if orElse w 0 < 0 \<or> orElse h 0 < 0 then Inl InvalidExtent
               else Inr \<lparr>rect_x = vx, rect_y = vy, rect_width = w, rect_height = h, ident = i\<rparr>
           | _ \<Rightarrow> Inl MissingCoordinates))"

text \<open>
  The first loop of \<open>pushAll\<close>: every item is validated, in order, and the first error is
  raised. (\<open>doObserve\<close> and the accessors it installs are outside the model.)
\<close>

fun validateAll :: "Item list \<Rightarrow> error + Element list" where
  "validateAll [] = Inr []"
| "validateAll (item # items) =
     (case validateElement item of
        Inl e \<Rightarrow> Inl e
      | Inr element \<Rightarrow> (case validateAll items of Inl e \<Rightarrow> Inl e | Inr elements \<Rightarrow> Inr (element # elements)))"

section \<open>Lazy children\<close>

text \<open>
  The four \<open>create\<close> closures of the constructor: a child is built by the constructor,
  from the fields of its parent.
\<close>

definition create :: "Direction \<Rightarrow> QuadTree \<Rightarrow> error + QuadTree" where
  "create d that =
     (case d of
        NW \<Rightarrow> new_QuadTree
          \<lparr>opt_width = Some (max (floorHalf (tree_width (node that))) 1),
           opt_height = Some (max (floorHalf (tree_height (node that))) 1),
           opt_x = Some (tree_x (node that)),
           opt_y = Some (tree_y (node that)),
           opt_maxElements = Some (maxElements (node that))\<rparr>
      | NE \<Rightarrow> new_QuadTree
          \<lparr>opt_width = Some (ceilHalf (tree_width (node that))),
           opt_height = Some (max (floorHalf (tree_height (node that))) 1),
           opt_x = Some (tree_x (node that) + max (floorHalf (tree_width (node that))) 1),
           opt_y = Some (tree_y (node that)),
           opt_maxElements = Some (maxElements (node that))\<rparr>
      | SW \<Rightarrow> new_QuadTree
          \<lparr>opt_width = Some (max (floorHalf (tree_width (node that))) 1),
           opt_height = Some (ceilHalf (tree_height (node that))),
           opt_x = Some (tree_x (node that)),
           opt_y = Some (tree_y (node that) + max (floorHalf (tree_height (node that))) 1),
           opt_maxElements = Some (maxElements (node that))\<rparr>
      | SE \<Rightarrow> new_QuadTree
          \<lparr>opt_width = Some (ceilHalf (tree_width (node that))),
           opt_height = Some (ceilHalf (tree_height (node that))),
           opt_x = Some (tree_x (node that) + max (floorHalf (tree_width (node that))) 1),
           opt_y = Some (tree_y (node that) + max (floorHalf (tree_height (node that))) 1),
           opt_maxElements = Some (maxElements (node that))\<rparr>)"

text \<open>
  The getter of a slot: the child that is there, or a new one, stored in the slot. It
  returns the tree with the slot filled; when the constructor raises, nothing is stored.
\<close>

definition get :: "Direction \<Rightarrow> QuadTree \<Rightarrow> error + QuadTree" where
  "get d tree =
     (case child d tree of
        Some c \<Rightarrow> Inr tree
      | None \<Rightarrow> (case create d tree of Inl e \<Rightarrow> Inl e | Inr c \<Rightarrow> Inr (set_child d (Some c) tree)))"

text \<open>
  An assignment to scalar fields of a node.
\<close>

definition map_node :: "(Node \<Rightarrow> Node) \<Rightarrow> QuadTree \<Rightarrow> QuadTree" where
  "map_node f t = QuadTree (f (node t)) (childNW t) (childNE t) (childSW t) (childSE t)"

section \<open>Insertion\<close>

text \<open>
  \<open>fifoCandidates\<close>: for each direction \<open>null\<close> or the elements bound for the child. The
  state of the loop over the elements of one worklist entry is the node and these
  candidates. A step returns the error it raises, if any, with the state it leaves.
\<close>

type_synonym candidates = "Direction \<Rightarrow> Element list option"

type_synonym push_state = "QuadTree \<times> candidates"

text \<open>
  A \<open>for\<close> loop over a list, which stops at the first error.
\<close>

fun forEach :: "('a \<Rightarrow> 's \<Rightarrow> error option \<times> 's) \<Rightarrow> 'a list \<Rightarrow> 's \<Rightarrow> error option \<times> 's" where
  "forEach body [] s = (None, s)"
| "forEach body (x # xs) s =
     (case body x s of (Some e, s') \<Rightarrow> (Some e, s') | (None, s') \<Rightarrow> forEach body xs s')"

text \<open>
  The lines that add an element to the candidates of a direction; the child is created
  (\<open>relatedChild.get()\<close>) when the direction has no candidates yet.
\<close>

definition addCandidate :: "Direction \<Rightarrow> Element \<Rightarrow> push_state \<Rightarrow> error option \<times> push_state" where
  "addCandidate direction element s =
     (case s of (tree, cands) \<Rightarrow>
        (case cands direction of
           Some elements \<Rightarrow> (None, tree, cands(direction \<mapsto> elements @ [element]))
         | None \<Rightarrow>
             (case get direction tree of
                Inl e \<Rightarrow> (Some e, tree, cands)
              | Inr tree' \<Rightarrow> (None, tree', cands(direction \<mapsto> [element])))))"

text \<open>
  One step of the loop over \<open>tree.contents\<close>: \<open>fitting(content, tree)[0]\<close> is \<open>undefined\<close>
  when nothing fits, and reading the slot of \<open>undefined\<close> raises a \<open>TypeError\<close>.
\<close>

definition flushOne :: "Element \<Rightarrow> push_state \<Rightarrow> error option \<times> push_state" where
  "flushOne content s =
     (case fitting content (fst s) of
        [] \<Rightarrow> (Some TypeError, s)
      | contentDir # _ \<Rightarrow> addCandidate contentDir content s)"

text \<open>
  The body of the loop over the elements of a worklist entry: the size is incremented,
  then the element goes to \<open>oversized\<close>, to \<open>contents\<close>, or to a child together with the
  \<open>contents\<close> of the node, which are emptied.
\<close>

definition place :: "Element \<Rightarrow> push_state \<Rightarrow> error option \<times> push_state" where
  "place element s =
     (case s of (tree0, cands) \<Rightarrow>
        (let tree = map_node (\<lambda>n. n\<lparr>tree_size := tree_size n + 1\<rparr>) tree0;
             fits = fitting element tree
         in if length fits \<noteq> 1 \<or> tree_width (node tree) = 1 \<or> tree_height (node tree) = 1
            then (None, map_node (\<lambda>n. n\<lparr>oversized := oversized n @ [element]\<rparr>) tree, cands)
            else if tree_size (node tree) - int (length (oversized (node tree))) \<le> maxElements (node tree)
            then (None, map_node (\<lambda>n. n\<lparr>contents := contents n @ [element]\<rparr>) tree, cands)
            else (case addCandidate (fits ! 0) element (tree, cands) of
                    (Some e, s') \<Rightarrow> (Some e, s')
                  | (None, s') \<Rightarrow>
                      (case forEach flushOne (contents (node tree)) s' of
                         (Some e, s'') \<Rightarrow> (Some e, s'')
                       | (None, tree', cands') \<Rightarrow>
                           (None, map_node (\<lambda>n. n\<lparr>contents := []\<rparr>) tree', cands')))))"

text \<open>
  A worklist entry of the source holds the node itself. Nodes are owned top-down and by
  one parent, so the model names a node by its path from the root, and an assignment to
  the node is a replacement at the path.
\<close>

type_synonym path = "Direction list"

fun node_at :: "QuadTree \<Rightarrow> path \<Rightarrow> QuadTree option" where
  "node_at t [] = Some t"
| "node_at t (d # p) = (case child d t of None \<Rightarrow> None | Some c \<Rightarrow> node_at c p)"

fun replace_at :: "QuadTree \<Rightarrow> path \<Rightarrow> QuadTree \<Rightarrow> QuadTree" where
  "replace_at t [] n = n"
| "replace_at t (d # p) n =
     (case child d t of None \<Rightarrow> t | Some c \<Rightarrow> set_child d (Some (replace_at c p n)) t)"

text \<open>
  The loop \<open>for (direction in fifoCandidates)\<close>: the candidates that are not \<open>null\<close>
  are pushed to the worklist, in the order of the keys.
\<close>

definition enqueue :: "path \<Rightarrow> candidates \<Rightarrow> (path \<times> Element list) list" where
  "enqueue p cands =
     List.map_filter (\<lambda>d. case cands d of None \<Rightarrow> None | Some elements \<Rightarrow> Some (p @ [d], elements)) directions"

section \<open>Termination measure of the insertion\<close>

text \<open>
  A bound on the depth the insertion can reach below a node: a child that the
  constructor accepts is narrower than a parent that can split.
\<close>

definition depthBound :: "int \<Rightarrow> nat" where
  "depthBound w = (if w \<le> 0 then 1 else if w = 1 then 0 else nat w)"

fun potential :: "QuadTree \<Rightarrow> nat" where
  "potential (QuadTree n nw ne sw se) =
     1 + max (depthBound (tree_width n))
          (max (case nw of None \<Rightarrow> 0 | Some c \<Rightarrow> potential c)
          (max (case ne of None \<Rightarrow> 0 | Some c \<Rightarrow> potential c)
          (max (case sw of None \<Rightarrow> 0 | Some c \<Rightarrow> potential c)
               (case se of None \<Rightarrow> 0 | Some c \<Rightarrow> potential c))))"

section \<open>Facts about slots\<close>

lemma child_set_child: "child d (set_child d' c t) = (if d = d' then c else child d t)"
  by (cases t; cases d; cases d') (simp_all add: child.simps)

lemma node_set_child: "node (set_child d c t) = node t"
  by (cases t; cases d) simp_all

lemma node_map_node: "node (map_node f t) = f (node t)"
  by (simp add: map_node_def)

lemma child_map_node: "child d (map_node f t) = child d t"
  by (cases d) (simp_all add: map_node_def child.simps)

lemma set_child_same: "child d t = c \<Longrightarrow> set_child d c t = t"
  by (cases t; cases d) (auto simp: child.simps)

lemma set_child_twice: "set_child d c (set_child d c' t) = set_child d c t"
  by (cases t; cases d) simp_all

lemma set_child_commute:
  "d \<noteq> d' \<Longrightarrow> set_child d c (set_child d' c' t) = set_child d' c' (set_child d c t)"
  by (cases t; cases d; cases d') simp_all

lemma QuadTree_eqI:
  "node t = node t' \<Longrightarrow> (\<And>d. child d t = child d t') \<Longrightarrow> t = t'"
proof -
  assume n: "node t = node t'" and c: "\<And>d. child d t = child d t'"
  from c [of NW] c [of NE] c [of SW] c [of SE] n show ?thesis
    by (cases t; cases t') (simp add: child.simps)
qed

lemma new_QuadTree_Inr:
  assumes "new_QuadTree opts = Inr t"
  obtains w h where "opt_width opts = Some w" "opt_height opts = Some h" "1 \<le> w" "1 \<le> h"
    "1 \<le> orElse (opt_maxElements opts) 1"
    "t = QuadTree \<lparr>tree_x = orElse (opt_x opts) 0, tree_y = orElse (opt_y opts) 0,
                    tree_width = w, tree_height = h,
                    maxElements = orElse (opt_maxElements opts) 1,
                    contents = [], oversized = [], tree_size = 0\<rparr> None None None None"
  using assms unfolding new_QuadTree_def
  by (auto simp: Let_def split: option.splits if_splits)

lemma orElse_Some_0: "orElse (Some v) 0 = v"
  by (simp add: orElse_def)

lemma create_Inr_eq:
  assumes "create d t = Inr c"
  shows "c = QuadTree \<lparr>tree_x = rect_x (splitTree t d), tree_y = rect_y (splitTree t d),
                        tree_width = widthOr1 (splitTree t d), tree_height = heightOr1 (splitTree t d),
                        maxElements = orElse (Some (maxElements (node t))) 1,
                        contents = [], oversized = [], tree_size = 0\<rparr> None None None None
         \<and> 1 \<le> widthOr1 (splitTree t d) \<and> 1 \<le> heightOr1 (splitTree t d)
         \<and> 1 \<le> orElse (Some (maxElements (node t))) 1"
proof (cases d)
  case NW
  with assms show ?thesis
    by (simp add: create_def new_QuadTree_def Let_def splitTree_simps orElse_Some_0 isInteger_def
        split: if_splits)
next
  case NE
  with assms show ?thesis
    by (simp add: create_def new_QuadTree_def Let_def splitTree_simps orElse_Some_0 isInteger_def
        split: if_splits)
next
  case SW
  with assms show ?thesis
    by (simp add: create_def new_QuadTree_def Let_def splitTree_simps orElse_Some_0 isInteger_def
        split: if_splits)
next
  case SE
  with assms show ?thesis
    by (simp add: create_def new_QuadTree_def Let_def splitTree_simps orElse_Some_0 isInteger_def
        split: if_splits)
qed

lemma create_Inr:
  assumes "create d t = Inr c"
  shows "tree_width (node c) = widthOr1 (splitTree t d)"
    and "tree_height (node c) = heightOr1 (splitTree t d)"
    and "tree_x (node c) = rect_x (splitTree t d)"
    and "tree_y (node c) = rect_y (splitTree t d)"
    and "maxElements (node c) = orElse (Some (maxElements (node t))) 1"
    and "contents (node c) = []" and "oversized (node c) = []" and "tree_size (node c) = 0"
    and "child d' c = None"
    and "1 \<le> tree_width (node c)" and "1 \<le> tree_height (node c)" and "1 \<le> maxElements (node c)"
  using create_Inr_eq [OF assms] by (cases d'; simp add: child.simps)+

section \<open>The measure decreases\<close>

definition cpot :: "QuadTree option \<Rightarrow> nat" where
  "cpot c = (case c of None \<Rightarrow> 0 | Some t \<Rightarrow> potential t)"

lemma potential_eq:
  "potential t = 1 + max (depthBound (tree_width (node t)))
     (max (cpot (child NW t)) (max (cpot (child NE t)) (max (cpot (child SW t)) (cpot (child SE t)))))"
  by (cases t) (simp add: cpot_def child.simps)

lemma cpot_child_le: "cpot (child d t) + 1 \<le> potential t"
  by (cases d) (simp_all add: potential_eq)

lemma potential_child: "child d t = Some c \<Longrightarrow> potential c < potential t"
  using cpot_child_le [of d t] by (simp add: cpot_def)

lemma potential_set_child:
  assumes "cpot c + 1 \<le> potential t"
  shows "potential (set_child d c t) \<le> potential t"
proof -
  have a: "cpot (child d' (set_child d c t)) + 1 \<le> potential t" for d'
    using assms cpot_child_le [of d' t] by (simp add: child_set_child)
  have b: "depthBound (tree_width (node t)) + 1 \<le> potential t"
    unfolding potential_eq [of t] by simp
  show ?thesis
    unfolding potential_eq [of "set_child d c t"] node_set_child
    using a [of NW] a [of NE] a [of SW] a [of SE] b by simp
qed

lemma potential_map_node:
  assumes "tree_width (f (node t)) = tree_width (node t)"
  shows "potential (map_node f t) = potential t"
  unfolding potential_eq [of "map_node f t"] potential_eq [of t] node_map_node child_map_node
  using assms by simp

lemma depthBound_child:
  assumes "w \<noteq> 1" "w' = max (floorHalf w) 1 \<or> w' = ceilHalf w" "1 \<le> w'"
  shows "depthBound w' + 1 \<le> depthBound w"
proof (cases "w \<le> 0")
  case True
  with assms have "w' = 1"
    unfolding floorHalf_def ceilHalf_def by presburger
  with True show ?thesis
    by (simp add: depthBound_def)
next
  case False
  with assms have "w' < w"
    unfolding floorHalf_def ceilHalf_def by presburger
  with False \<open>1 \<le> w'\<close> show ?thesis
    unfolding depthBound_def by auto
qed

definition shrink :: "QuadTree \<Rightarrow> QuadTree \<Rightarrow> bool" where
  "shrink t t' = (tree_width (node t') = tree_width (node t) \<and> potential t' \<le> potential t)"

lemma shrink_refl: "shrink t t"
  by (simp add: shrink_def)

lemma shrink_trans: "shrink t t' \<Longrightarrow> shrink t' t'' \<Longrightarrow> shrink t t''"
  by (simp add: shrink_def)

lemma shrink_map_node:
  "tree_width (f (node t)) = tree_width (node t) \<Longrightarrow> shrink t (map_node f t)"
  by (simp add: shrink_def potential_map_node node_map_node)

lemma forEach_invariant:
  assumes "\<And>x s r s'. I s \<Longrightarrow> body x s = (r, s') \<Longrightarrow> I s'"
    and "I s" and "forEach body xs s = (r, s')"
  shows "I s'"
  using assms(2,3)
proof (induction xs arbitrary: s)
  case Nil
  then show ?case by simp
next
  case (Cons x xs)
  obtain r1 s1 where b: "body x s = (r1, s1)"
    by (cases "body x s")
  with Cons.prems(1) have i: "I s1"
    using assms(1) by blast
  show ?case
  proof (cases r1)
    case None
    with b Cons.prems(2) have "forEach body xs s1 = (r, s')" by simp
    with i show ?thesis by (rule Cons.IH)
  next
    case (Some e)
    with b Cons.prems(2) have "s' = s1" by simp
    with i show ?thesis by simp
  qed
qed

lemma get_shrink:
  assumes "tree_width (node t) \<noteq> 1" "get d t = Inr t'"
  shows "shrink t t'"
proof (cases "child d t")
  case (Some c)
  with assms show ?thesis by (simp add: get_def shrink_refl)
next
  case None
  with assms obtain c where c: "create d t = Inr c" and t': "t' = set_child d (Some c) t"
    by (auto simp: get_def split: sum.splits)
  have nc: "child d' c = None" for d'
    using create_Inr(9) [OF c] .
  have "potential c = 1 + depthBound (tree_width (node c))"
    unfolding potential_eq [of c] by (simp add: nc cpot_def)
  moreover have "depthBound (tree_width (node c)) + 1 \<le> depthBound (tree_width (node t))"
  proof (rule depthBound_child [OF assms(1)])
    show "tree_width (node c) = max (floorHalf (tree_width (node t))) 1
        \<or> tree_width (node c) = ceilHalf (tree_width (node t))"
      unfolding create_Inr(1) [OF c] by (cases d) (simp_all add: splitTree_simps)
    show "1 \<le> tree_width (node c)"
      using create_Inr(10) [OF c] .
  qed
  moreover have "depthBound (tree_width (node t)) + 1 \<le> potential t"
    unfolding potential_eq [of t] by simp
  ultimately have "cpot (Some c) + 1 \<le> potential t"
    by (simp add: cpot_def)
  then show ?thesis
    unfolding t' shrink_def node_set_child by (simp add: potential_set_child)
qed

lemma addCandidate_shrink:
  assumes "tree_width (node t) \<noteq> 1" "addCandidate d e (t, cs) = (r, t', cs')"
  shows "shrink t t'"
  using assms get_shrink [of t d]
  by (auto simp: addCandidate_def shrink_refl split: option.splits sum.splits)

lemma flushOne_shrink:
  assumes "tree_width (node t) \<noteq> 1" "flushOne e (t, cs) = (r, t', cs')"
  shows "shrink t t'"
  using assms addCandidate_shrink [of t _ e cs r t' cs']
  by (auto simp: flushOne_def shrink_refl split: list.splits)

lemma flush_shrink:
  assumes "tree_width (node t) \<noteq> 1" "forEach flushOne es (t, cs) = (r, t', cs')"
  shows "shrink t t'"
proof -
  have "shrink t (fst (t', cs')) \<and> tree_width (node (fst (t', cs'))) \<noteq> 1"
  proof (rule forEach_invariant [where I = "\<lambda>s. shrink t (fst s) \<and> tree_width (node (fst s)) \<noteq> 1",
        OF _ _ assms(2)])
    show "shrink t (fst (t, cs)) \<and> tree_width (node (fst (t, cs))) \<noteq> 1"
      using assms(1) by (simp add: shrink_refl)
  next
    fix x s r s'
    assume i: "shrink t (fst s) \<and> tree_width (node (fst s)) \<noteq> 1" and b: "flushOne x s = (r, s')"
    from b have "flushOne x (fst s, snd s) = (r, fst s', snd s')" by simp
    with i have "shrink (fst s) (fst s')"
      using flushOne_shrink by blast
    with i show "shrink t (fst s') \<and> tree_width (node (fst s')) \<noteq> 1"
      using shrink_trans by (auto simp: shrink_def)
  qed
  then show ?thesis by simp
qed

lemma place_shrink:
  assumes "place e (t, cs) = (r, t', cs')"
  shows "shrink t t'"
proof -
  let ?t1 = "map_node (\<lambda>n. n\<lparr>tree_size := tree_size n + 1\<rparr>) t"
  have s1: "shrink t ?t1"
    by (simp add: shrink_map_node)
  have w1: "tree_width (node ?t1) = tree_width (node t)"
    by (simp add: node_map_node)
  show ?thesis
  proof (cases "length (fitting e ?t1) \<noteq> 1 \<or> tree_width (node ?t1) = 1 \<or> tree_height (node ?t1) = 1")
    case True
    with assms have "t' = map_node (\<lambda>n. n\<lparr>oversized := oversized n @ [e]\<rparr>) ?t1"
      by (auto simp: place_def Let_def)
    then show ?thesis
      using s1 shrink_trans shrink_map_node [of "\<lambda>n. n\<lparr>oversized := oversized n @ [e]\<rparr>" ?t1] by simp
  next
    case False
    note nf = False
    show ?thesis
    proof (cases "tree_size (node ?t1) - int (length (oversized (node ?t1))) \<le> maxElements (node ?t1)")
      case True
      with nf assms have "t' = map_node (\<lambda>n. n\<lparr>contents := contents n @ [e]\<rparr>) ?t1"
        by (auto simp: place_def Let_def)
      then show ?thesis
        using s1 shrink_trans shrink_map_node [of "\<lambda>n. n\<lparr>contents := contents n @ [e]\<rparr>" ?t1] by simp
    next
      case False
      obtain r2 t2 c2 where a: "addCandidate (fitting e ?t1 ! 0) e (?t1, cs) = (r2, t2, c2)"
        by (cases "addCandidate (fitting e ?t1 ! 0) e (?t1, cs)" rule: prod_cases3) blast
      from nf w1 have wn: "tree_width (node ?t1) \<noteq> 1" by simp
      have s2: "shrink ?t1 t2"
        using addCandidate_shrink [OF wn a] .
      show ?thesis
      proof (cases r2)
        case (Some err)
        with nf False assms a have "t' = t2"
          by (auto simp: place_def Let_def)
        with s1 s2 show ?thesis using shrink_trans by blast
      next
        case None
        obtain r3 t3 c3 where f: "forEach flushOne (contents (node ?t1)) (t2, c2) = (r3, t3, c3)"
          by (cases "forEach flushOne (contents (node ?t1)) (t2, c2)" rule: prod_cases3) blast
        from s2 wn have "tree_width (node t2) \<noteq> 1" by (simp add: shrink_def)
        then have s3: "shrink t2 t3"
          using flush_shrink f by blast
        have "t' = t3 \<or> t' = map_node (\<lambda>n. n\<lparr>contents := []\<rparr>) t3"
          using nf False assms a f None by (cases r3) (auto simp: place_def Let_def)
        moreover have "shrink t3 (map_node (\<lambda>n. n\<lparr>contents := []\<rparr>) t3)"
          by (simp add: shrink_map_node)
        ultimately have "shrink t3 t'"
          using shrink_refl by auto
        with s1 s2 s3 show ?thesis using shrink_trans by blast
      qed
    qed
  qed
qed

lemma batch_shrink:
  assumes "forEach place es (t, cs) = (r, t', cs')"
  shows "shrink t t'"
proof -
  have "shrink t (fst (t', cs'))"
  proof (rule forEach_invariant [where I = "\<lambda>s. shrink t (fst s)", OF _ _ assms])
    show "shrink t (fst (t, cs))" by (simp add: shrink_refl)
  next
    fix x s r s'
    assume i: "shrink t (fst s)" and b: "place x s = (r, s')"
    from b have "place x (fst s, snd s) = (r, fst s', snd s')" by simp
    then have "shrink (fst s) (fst s')" by (rule place_shrink)
    with i show "shrink t (fst s')" using shrink_trans by blast
  qed
  then show ?thesis by simp
qed

lemma node_at_potential: "node_at whole p = Some t \<Longrightarrow> length p + potential t \<le> potential whole"
proof (induction p arbitrary: whole)
  case Nil
  then show ?case by simp
next
  case (Cons d p)
  then obtain c where c: "child d whole = Some c" and n: "node_at c p = Some t"
    by (auto split: option.splits)
  from Cons.IH [OF n] potential_child [OF c] show ?case by simp
qed

lemma replace_at_potential:
  "node_at whole p = Some t \<Longrightarrow> potential t' \<le> potential t \<Longrightarrow> potential (replace_at whole p t') \<le> potential whole"
proof (induction p arbitrary: whole)
  case Nil
  then show ?case by simp
next
  case (Cons d p)
  then obtain c where c: "child d whole = Some c" and n: "node_at c p = Some t"
    by (auto split: option.splits)
  have "potential (replace_at c p t') \<le> potential c"
    using Cons.IH [OF n Cons.prems(2)] .
  with potential_child [OF c] have "cpot (Some (replace_at c p t')) + 1 \<le> potential whole"
    by (simp add: cpot_def)
  then show ?case
    using c by (simp add: potential_set_child)
qed

definition weight :: "QuadTree \<Rightarrow> (path \<times> Element list) list \<Rightarrow> nat" where
  "weight whole fifo = (\<Sum>entry\<leftarrow>fifo. 5 ^ (potential whole - length (fst entry)))"

lemma weight_mono: "potential whole' \<le> potential whole \<Longrightarrow> weight whole' fifo \<le> weight whole fifo"
  unfolding weight_def
  by (induction fifo) (auto intro!: add_mono power_increasing diff_le_mono)

lemma weight_append: "weight whole (xs @ ys) = weight whole xs + weight whole ys"
  by (simp add: weight_def)

lemma weight_enqueue: "weight whole (enqueue p cands) \<le> 4 * 5 ^ (potential whole - Suc (length p))"
  unfolding weight_def enqueue_def directions_def List.map_filter_def
  by (simp split: option.splits)

text \<open>
  The \<open>while\<close> loop of \<open>pushAll\<close>. The loop creates a child before it enqueues its
  path, so the path of an entry always leads to a node; the case \<open>None\<close> is there for
  totality. On an error the loop stops, and the tree is as the failing step left it.
\<close>

function pushAll_loop :: "QuadTree \<Rightarrow> (path \<times> Element list) list \<Rightarrow> error option \<times> QuadTree" where
  "pushAll_loop whole [] = (None, whole)"
| "pushAll_loop whole ((p, elements) # fifo) =
     (case node_at whole p of
        None \<Rightarrow> pushAll_loop whole fifo
      | Some tree \<Rightarrow>
          (case forEach place elements (tree, Map.empty) of
             (Some e, tree', cands) \<Rightarrow> (Some e, replace_at whole p tree')
           | (None, tree', cands) \<Rightarrow>
               pushAll_loop (replace_at whole p tree') (fifo @ enqueue p cands)))"
  by pat_completeness auto
termination
proof (relation "measure (\<lambda>(whole, fifo). weight whole fifo)", goal_cases)
  case 1
  show ?case by simp
next
  case (2 whole p elements fifo)
  show ?case by (simp add: weight_def)
next
  case (3 whole p elements fifo tree x y tree' cands)
  then have n: "node_at whole p = Some tree"
    and b: "forEach place elements (tree, Map.empty) = (None, tree', cands)"
    by simp_all
  let ?whole' = "replace_at whole p tree'"
  from batch_shrink [OF b] have "potential tree' \<le> potential tree"
    by (simp add: shrink_def)
  with n have le: "potential ?whole' \<le> potential whole"
    by (rule replace_at_potential)
  from node_at_potential [OF n] have "length p < potential whole"
    using potential_eq [of tree] by simp
  then obtain k where k: "potential whole - length p = Suc k" "potential whole - Suc (length p) = k"
    by (metis Suc_diff_Suc diff_Suc_eq_diff_pred Suc_pred' zero_less_diff diff_Suc_1)
  have "weight ?whole' (fifo @ enqueue p cands) \<le> weight whole (fifo @ enqueue p cands)"
    using le by (rule weight_mono)
  also have "\<dots> \<le> weight whole fifo + 4 * 5 ^ k"
    using weight_enqueue [of whole p cands] k by (simp add: weight_append)
  also have "\<dots> < weight whole fifo + 5 ^ Suc k"
    by simp
  finally show ?case
    using k by (simp add: weight_def)
qed

text \<open>
  \<open>pushAll\<close> and \<open>push\<close>: the error raised, if any, and the tree after the call.
\<close>

definition pushAll :: "QuadTree \<Rightarrow> Item list \<Rightarrow> error option \<times> QuadTree" where
  "pushAll this items =
     (case validateAll items of
        Inl e \<Rightarrow> (Some e, this)
      | Inr elements \<Rightarrow> pushAll_loop this [([], elements)])"

definition push :: "QuadTree \<Rightarrow> Item \<Rightarrow> error option \<times> QuadTree" where
  "push this item = pushAll this [item]"

section \<open>Removal\<close>

text \<open>
  \<open>Array.indexOf\<close> (by reference, \<open>-1\<close> when absent) and \<open>splice(index, 1)\<close>.
\<close>

fun indexOf :: "'a list \<Rightarrow> 'a \<Rightarrow> int" where
  "indexOf [] x = - 1"
| "indexOf (y # ys) x = (if y = x then 0 else (let i = indexOf ys x in if i > - 1 then i + 1 else - 1))"

definition splice1 :: "int \<Rightarrow> 'a list \<Rightarrow> 'a list" where
  "splice1 index xs = take (nat index) xs @ drop (Suc (nat index)) xs"

text \<open>
  The number of nodes of a tree, the measure of the recursion of \<open>remove\<close> and of the
  traversals.
\<close>

fun nodeCount :: "QuadTree \<Rightarrow> nat" where
  "nodeCount (QuadTree n nw ne sw se) =
     1 + (case nw of None \<Rightarrow> 0 | Some c \<Rightarrow> nodeCount c)
       + (case ne of None \<Rightarrow> 0 | Some c \<Rightarrow> nodeCount c)
       + (case sw of None \<Rightarrow> 0 | Some c \<Rightarrow> nodeCount c)
       + (case se of None \<Rightarrow> 0 | Some c \<Rightarrow> nodeCount c)"

lemma nodeCount_child: "child d t = Some c \<Longrightarrow> nodeCount c < nodeCount t"
  by (cases t; cases d) (simp_all add: child.simps)

text \<open>
  \<open>remove\<close>: the value returned or the error raised, and the tree after the call.
  (\<open>stillObserve\<close> and \<open>unobserve\<close> are outside the model.)
\<close>

function remove :: "Item \<Rightarrow> QuadTree \<Rightarrow> (error + bool) \<times> QuadTree" where
  "remove item this =
     (case validateElement item of
        Inl e \<Rightarrow> (Inl e, this)
      | Inr element \<Rightarrow>
          (if indexOf (oversized (node this)) element > - 1
           then (Inr True,
                 map_node (\<lambda>n. n\<lparr>oversized := splice1 (indexOf (oversized n) element) (oversized n),
                                  tree_size := tree_size n - 1\<rparr>) this)
           else if indexOf (contents (node this)) element > - 1
           then (Inr True,
                 map_node (\<lambda>n. n\<lparr>contents := splice1 (indexOf (contents n) element) (contents n),
                                  tree_size := tree_size n - 1\<rparr>) this)
           else (case child (calculateDirection element this) this of
                   None \<Rightarrow> (Inr False, this)
                 | Some relatedChild \<Rightarrow>
                     (case remove item relatedChild of
                        (Inl e, c') \<Rightarrow> (Inl e, set_child (calculateDirection element this) (Some c') this)
                      | (Inr removed, c') \<Rightarrow>
                          if removed
                          then (Inr True,
                                set_child (calculateDirection element this)
                                  (if tree_size (node c') = 0 then None else Some c')
                                  (map_node (\<lambda>n. n\<lparr>tree_size := tree_size n - 1\<rparr>) this))
                          else (Inr False, set_child (calculateDirection element this) (Some c') this)))))"
  by pat_completeness auto
termination
  by (relation "measure (\<lambda>(item, this). nodeCount this)") (auto simp: nodeCount_child)

text \<open>
  \<open>clear\<close>.
\<close>

definition clear :: "QuadTree \<Rightarrow> QuadTree" where
  "clear this = QuadTree ((node this)\<lparr>contents := [], oversized := [], tree_size := 0\<rparr>) None None None None"

section \<open>Traversals\<close>

text \<open>
  The children of a node in the given directions, those that are not \<open>null\<close>.
\<close>

definition liveChildren :: "Direction list \<Rightarrow> QuadTree \<Rightarrow> QuadTree list" where
  "liveChildren ds t = List.map_filter (\<lambda>d. child d t) ds"

definition totalCount :: "QuadTree list \<Rightarrow> nat" where
  "totalCount fifo = sum_list (map nodeCount fifo)"

lemma totalCount_all: "Suc (totalCount (liveChildren directions t)) = nodeCount t"
  by (cases t) (simp add: totalCount_def liveChildren_def directions_def List.map_filter_def
      child.simps split: option.splits)

lemma totalCount_append: "totalCount (xs @ ys) = totalCount xs + totalCount ys"
  by (simp add: totalCount_def)

lemma totalCount_Cons: "totalCount (x # xs) = nodeCount x + totalCount xs"
  by (simp add: totalCount_def)

text \<open>
  \<open>each\<close>: the elements the action is called on, in the order of the calls.
\<close>

function each_loop :: "QuadTree list \<Rightarrow> Element list" where
  "each_loop [] = []"
| "each_loop (topNode # fifo) =
     oversized (node topNode) @ contents (node topNode)
       @ each_loop (fifo @ liveChildren directions topNode)"
  by pat_completeness auto
termination
proof (relation "measure totalCount", goal_cases)
  case 1
  show ?case by simp
next
  case (2 topNode fifo)
  show ?case
    using totalCount_all [of topNode] by (simp add: totalCount_append totalCount_Cons)
qed

definition each :: "QuadTree \<Rightarrow> Element list" where
  "each this = each_loop [this]"

text \<open>
  \<open>find\<close>, for a predicate that is a function.
\<close>

function find_loop :: "(Element \<Rightarrow> bool) \<Rightarrow> QuadTree list \<Rightarrow> Element list" where
  "find_loop predicate [] = []"
| "find_loop predicate (topNode # fifo) =
     filter predicate (oversized (node topNode)) @ filter predicate (contents (node topNode))
       @ find_loop predicate (fifo @ liveChildren directions topNode)"
  by pat_completeness auto
termination
proof (relation "measure (\<lambda>(predicate, fifo). totalCount fifo)", goal_cases)
  case 1
  show ?case by simp
next
  case (2 predicate topNode fifo)
  show ?case
    using totalCount_all [of topNode] by (simp add: totalCount_append totalCount_Cons)
qed

definition find_elements :: "QuadTree \<Rightarrow> (Element \<Rightarrow> bool) \<Rightarrow> Element list" where
  "find_elements this predicate = find_loop predicate [this]"

lemma UNIV_Direction: "(UNIV :: Direction set) = {NW, NE, SW, SE}"
  by (auto intro: Direction.exhaust)

lemma set_directions: "set directions = UNIV"
  by (simp add: directions_def UNIV_Direction)

lemma distinct_directions: "distinct directions"
  by (simp add: directions_def)

lemma totalCount_liveChildren:
  "totalCount (liveChildren ds t) = (\<Sum>d\<leftarrow>ds. case child d t of None \<Rightarrow> 0 | Some c \<Rightarrow> nodeCount c)"
  by (induction ds) (simp_all add: totalCount_def liveChildren_def List.map_filter_def split: option.splits)

lemma totalCount_distinct:
  assumes "distinct ds"
  shows "totalCount (liveChildren ds t) < nodeCount t"
proof -
  let ?g = "\<lambda>d. case child d t of None \<Rightarrow> 0 | Some c \<Rightarrow> nodeCount c"
  have "totalCount (liveChildren ds t) = sum ?g (set ds)"
    using assms by (simp add: totalCount_liveChildren sum_list_distinct_conv_sum_set)
  also have "\<dots> \<le> sum ?g (set directions)"
  proof (rule sum_mono2)
    show "finite (set directions)" by simp
    show "set ds \<subseteq> set directions" by (simp add: set_directions)
  qed simp
  also have "\<dots> = totalCount (liveChildren directions t)"
    using distinct_directions by (simp add: totalCount_liveChildren sum_list_distinct_conv_sum_set)
  finally show ?thesis
    using totalCount_all [of t] by simp
qed

lemma distinct_fitting: "distinct (fitting item t)"
  by (simp add: fitting_def distinct_directions)

lemma distinct_collisionFits: "distinct (collisionFits item t)"
  using distinct_fitting [of item t]
  by (simp add: collisionFits_def Let_def)

section \<open>Collision queries\<close>

text \<open>
  \<open>colliding\<close>, and \<open>onCollision\<close>, whose lines are the same: the model of the second
  returns the elements the callback is called on.
\<close>

function colliding_loop ::
  "Element \<Rightarrow> (Element \<Rightarrow> Element \<Rightarrow> bool) \<Rightarrow> QuadTree list \<Rightarrow> Element list" where
  "colliding_loop item collisionFunction [] = []"
| "colliding_loop item collisionFunction (topNode # fifo) =
     filter (\<lambda>elt. elt \<noteq> item \<and> collisionFunction item elt) (oversized (node topNode))
       @ filter (\<lambda>elt. elt \<noteq> item \<and> collisionFunction item elt) (contents (node topNode))
       @ colliding_loop item collisionFunction (fifo @ liveChildren (collisionFits item topNode) topNode)"
  by pat_completeness auto
termination
proof (relation "measure (\<lambda>(item, collisionFunction, fifo). totalCount fifo)", goal_cases)
  case 1
  show ?case by simp
next
  case (2 item collisionFunction topNode fifo)
  show ?case
    using totalCount_distinct [OF distinct_collisionFits, of item topNode topNode]
    by (simp add: totalCount_append totalCount_Cons)
qed

definition colliding ::
  "QuadTree \<Rightarrow> Item \<Rightarrow> (Element \<Rightarrow> Element \<Rightarrow> bool) \<Rightarrow> error + Element list" where
  "colliding this item collisionFunction =
     (case validateElement item of
        Inl e \<Rightarrow> Inl e
      | Inr elt \<Rightarrow> Inr (colliding_loop elt collisionFunction [this]))"

definition onCollision ::
  "QuadTree \<Rightarrow> Item \<Rightarrow> (Element \<Rightarrow> Element \<Rightarrow> bool) \<Rightarrow> error + Element list" where
  "onCollision this item collisionFunction =
     (case validateElement item of
        Inl e \<Rightarrow> Inl e
      | Inr elt \<Rightarrow> Inr (colliding_loop elt collisionFunction [this]))"

section \<open>Cloning\<close>

text \<open>
  \<open>predicate == null || predicate(item)\<close>: the test of \<open>deepclone\<close>, for a predicate that
  is \<open>null\<close> or a function.
\<close>

definition keeps :: "(Element \<Rightarrow> bool) option \<Rightarrow> Element \<Rightarrow> bool" where
  "keeps predicate item = (case predicate of None \<Rightarrow> True | Some f \<Rightarrow> f item)"

text \<open>
  The size of a cloned child, 0 when the clone is \<open>null\<close>.
\<close>

definition sizeOrZero :: "QuadTree option \<Rightarrow> int" where
  "sizeOrZero c = (case c of None \<Rightarrow> 0 | Some t \<Rightarrow> tree_size (node t))"

text \<open>
  \<open>deepclone\<close> of \<open>filter\<close>: the copy is built by the constructor, the children are
  cloned in the order of the keys, then the elements of the node are filtered; a clone
  of size 0 is \<open>null\<close>.
\<close>

fun deepclone :: "(Element \<Rightarrow> bool) option \<Rightarrow> QuadTree \<Rightarrow> error + QuadTree option" where
  "deepclone predicate (QuadTree n nw ne sw se) =
     (case new_QuadTree \<lparr>opt_width = Some (tree_width n), opt_height = Some (tree_height n),
                          opt_x = Some (tree_x n), opt_y = Some (tree_y n),
                          opt_maxElements = Some (maxElements n)\<rparr> of
        Inl e \<Rightarrow> Inl e
      | Inr copycat \<Rightarrow>
     (case (case nw of None \<Rightarrow> Inr None | Some c \<Rightarrow> deepclone predicate c) of
        Inl e \<Rightarrow> Inl e
      | Inr cnw \<Rightarrow>
     (case (case ne of None \<Rightarrow> Inr None | Some c \<Rightarrow> deepclone predicate c) of
        Inl e \<Rightarrow> Inl e
      | Inr cne \<Rightarrow>
     (case (case sw of None \<Rightarrow> Inr None | Some c \<Rightarrow> deepclone predicate c) of
        Inl e \<Rightarrow> Inl e
      | Inr csw \<Rightarrow>
     (case (case se of None \<Rightarrow> Inr None | Some c \<Rightarrow> deepclone predicate c) of
        Inl e \<Rightarrow> Inl e
      | Inr cse \<Rightarrow>
          (let kept_oversized = filter (keeps predicate) (oversized n);
               kept_contents = filter (keeps predicate) (contents n);
               size = sizeOrZero cnw + sizeOrZero cne + sizeOrZero csw + sizeOrZero cse
                      + int (length kept_oversized) + int (length kept_contents)
           in if size = 0 then Inr None
              else Inr (Some (QuadTree ((node copycat)\<lparr>oversized := kept_oversized,
                                                         contents := kept_contents,
                                                         tree_size := size\<rparr>)
                                       cnw cne csw cse))))))))"

definition filter_tree :: "QuadTree \<Rightarrow> (Element \<Rightarrow> bool) option \<Rightarrow> error + QuadTree option" where
  "filter_tree this predicate = deepclone predicate this"

text \<open>
  \<open>typeof predicate === "function" ? predicate(i) : undefined\<close>, as a truth value.
\<close>

definition holds :: "(Element \<Rightarrow> bool) option \<Rightarrow> Element \<Rightarrow> bool" where
  "holds predicate i = (case predicate of None \<Rightarrow> False | Some f \<Rightarrow> f i)"

definition reject :: "QuadTree \<Rightarrow> (Element \<Rightarrow> bool) option \<Rightarrow> error + QuadTree option" where
  "reject this predicate = filter_tree this (Some (\<lambda>i. \<not> holds predicate i))"

section \<open>The elements of a tree\<close>

fun elems :: "QuadTree \<Rightarrow> Element multiset" where
  "elems (QuadTree n nw ne sw se) =
     mset (oversized n) + mset (contents n)
       + (case nw of None \<Rightarrow> {#} | Some c \<Rightarrow> elems c)
       + (case ne of None \<Rightarrow> {#} | Some c \<Rightarrow> elems c)
       + (case sw of None \<Rightarrow> {#} | Some c \<Rightarrow> elems c)
       + (case se of None \<Rightarrow> {#} | Some c \<Rightarrow> elems c)"

definition celems :: "QuadTree option \<Rightarrow> Element multiset" where
  "celems c = (case c of None \<Rightarrow> {#} | Some t \<Rightarrow> elems t)"

definition geom :: "QuadTree \<Rightarrow> int \<times> int \<times> int \<times> int" where
  "geom t = (tree_x (node t), tree_y (node t), tree_width (node t), tree_height (node t))"

section \<open>The invariant of the reachable trees\<close>

definition child_ok :: "QuadTree \<Rightarrow> Direction \<Rightarrow> QuadTree \<Rightarrow> bool" where
  "child_ok t d c =
     (tree_x (node c) = rect_x (splitTree t d) \<and> tree_y (node c) = rect_y (splitTree t d)
      \<and> tree_width (node c) = widthOr1 (splitTree t d)
      \<and> tree_height (node c) = heightOr1 (splitTree t d)
      \<and> maxElements (node c) = maxElements (node t)
      \<and> 2 \<le> tree_width (node t) \<and> 2 \<le> tree_height (node t)
      \<and> (\<forall>e \<in># elems c. calculateDirection e t = d))"

definition node_ok :: "QuadTree \<Rightarrow> bool" where
  "node_ok t =
     (1 \<le> tree_width (node t) \<and> 1 \<le> tree_height (node t) \<and> 1 \<le> maxElements (node t)
      \<and> tree_size (node t) = int (size (elems t))
      \<and> (contents (node t) \<noteq> [] \<longrightarrow>
            tree_size (node t) - int (length (oversized (node t))) \<le> maxElements (node t)
            \<and> 2 \<le> tree_width (node t) \<and> 2 \<le> tree_height (node t))
      \<and> (\<forall>e \<in> set (contents (node t)). length (fitting e t) = 1))"

fun well_formed :: "QuadTree \<Rightarrow> bool" where
  "well_formed (QuadTree n nw ne sw se) =
     (node_ok (QuadTree n nw ne sw se)
      \<and> (case nw of None \<Rightarrow> True | Some c \<Rightarrow> well_formed c \<and> child_ok (QuadTree n nw ne sw se) NW c)
      \<and> (case ne of None \<Rightarrow> True | Some c \<Rightarrow> well_formed c \<and> child_ok (QuadTree n nw ne sw se) NE c)
      \<and> (case sw of None \<Rightarrow> True | Some c \<Rightarrow> well_formed c \<and> child_ok (QuadTree n nw ne sw se) SW c)
      \<and> (case se of None \<Rightarrow> True | Some c \<Rightarrow> well_formed c \<and> child_ok (QuadTree n nw ne sw se) SE c))"

lemma elems_eq:
  "elems t = mset (oversized (node t)) + mset (contents (node t))
      + celems (child NW t) + celems (child NE t) + celems (child SW t) + celems (child SE t)"
  by (cases t) (simp add: celems_def child.simps)

lemma well_formed_iff:
  "well_formed t \<longleftrightarrow> node_ok t \<and> (\<forall>d c. child d t = Some c \<longrightarrow> well_formed c \<and> child_ok t d c)"
proof (cases t)
  case (QuadTree n nw ne sw se)
  have all: "(\<forall>d. P d) \<longleftrightarrow> P NW \<and> P NE \<and> P SW \<and> P SE" for P
    by (metis Direction.exhaust)
  show ?thesis
    unfolding QuadTree all [of "\<lambda>d. \<forall>c. child d _ = Some c \<longrightarrow> _ d c"]
    by (auto simp: child.simps split: option.splits)
qed

lemma celems_child: "child d t = Some c \<Longrightarrow> elems c \<subseteq># elems t"
  by (cases d) (simp_all add: elems_eq [of t] celems_def)

lemma splitTree_geom: "geom t = geom t' \<Longrightarrow> splitTree t = splitTree t'"
proof
  fix d
  assume "geom t = geom t'"
  then show "splitTree t d = splitTree t' d"
    by (cases d) (simp_all add: geom_def splitTree_def)
qed

lemma fitting_geom: "geom t = geom t' \<Longrightarrow> fitting e t = fitting e t'"
  by (simp add: fitting_def splitTree_geom [of t t'])

lemma calculateDirection_geom: "geom t = geom t' \<Longrightarrow> calculateDirection e t = calculateDirection e t'"
  by (simp add: geom_def calculateDirection_def treeRect_def)

lemma geom_map_node:
  "tree_x (f (node t)) = tree_x (node t) \<Longrightarrow> tree_y (f (node t)) = tree_y (node t) \<Longrightarrow>
   tree_width (f (node t)) = tree_width (node t) \<Longrightarrow> tree_height (f (node t)) = tree_height (node t) \<Longrightarrow>
   geom (map_node f t) = geom t"
  by (simp add: geom_def node_map_node)

lemma geom_set_child: "geom (set_child d c t) = geom t"
  by (simp add: geom_def node_set_child)

text \<open>An element that fits one quadrant of a node that can split is routed to it by the centre.\<close>

lemma fitting_single_direction:
  assumes "fitting e t = [d]" "2 \<le> tree_width (node t)" "2 \<le> tree_height (node t)"
  shows "calculateDirection e t = d"
proof -
  have f: "boundingBoxCollision e (splitTree t d') \<longleftrightarrow> d' = d" for d'
  proof -
    have "d' \<in> set (fitting e t) \<longleftrightarrow> boundingBoxCollision e (splitTree t d')"
      by (simp add: fitting_def set_directions)
    with assms(1) show ?thesis by simp
  qed
  have w: "max (floorHalf (tree_width (node t))) 1 = floorHalf (tree_width (node t))"
    using floorHalf_pos [OF assms(2)] by simp
  have h: "max (floorHalf (tree_height (node t))) 1 = floorHalf (tree_height (node t))"
    using floorHalf_pos [OF assms(3)] by simp
  have wp: "1 \<le> floorHalf (tree_width (node t))" "1 \<le> floorHalf (tree_height (node t))"
    using floorHalf_pos assms by simp_all
  have c: "getCenter (treeRect t) = (floorHalf (tree_width (node t)) + tree_x (node t),
                                     floorHalf (tree_height (node t)) + tree_y (node t))"
    by (simp add: getCenter_def treeRect_def widthOr1_def heightOr1_def)
  show ?thesis
    using f [of NW] f [of NE] f [of SW] f [of SE] wp
    unfolding calculateDirection_def c boundingBoxCollision_def splitTree_simps w h Let_def
    by (cases d) auto
qed

section \<open>One batch of the insertion keeps the invariant\<close>

definition pending :: "candidates \<Rightarrow> Direction \<Rightarrow> Element list" where
  "pending cs d = (case cs d of None \<Rightarrow> [] | Some b \<Rightarrow> b)"

definition pend_mset :: "candidates \<Rightarrow> Element multiset" where
  "pend_mset cs = mset (pending cs NW) + mset (pending cs NE) + mset (pending cs SW) + mset (pending cs SE)"

definition links :: "QuadTree \<Rightarrow> candidates \<Rightarrow> bool" where
  "links t cs =
     ((\<forall>d c. child d t = Some c \<longrightarrow> well_formed c \<and> child_ok t d c)
      \<and> (\<forall>d b. cs d = Some b \<longrightarrow> child d t \<noteq> None \<and> (\<forall>e \<in> set b. calculateDirection e t = d)))"

definition slots :: "QuadTree \<Rightarrow> candidates \<Rightarrow> bool" where
  "slots t cs =
     (1 \<le> maxElements (node t) \<and> 2 \<le> tree_width (node t) \<and> 2 \<le> tree_height (node t)
      \<and> links t cs)"

definition mid :: "QuadTree \<Rightarrow> candidates \<Rightarrow> bool" where
  "mid t cs =
     (1 \<le> tree_width (node t) \<and> 1 \<le> tree_height (node t) \<and> 1 \<le> maxElements (node t)
      \<and> tree_size (node t) = int (size (elems t + pend_mset cs))
      \<and> (contents (node t) \<noteq> [] \<longrightarrow>
            tree_size (node t) - int (length (oversized (node t))) \<le> maxElements (node t)
            \<and> 2 \<le> tree_width (node t) \<and> 2 \<le> tree_height (node t))
      \<and> (\<forall>e \<in> set (contents (node t)). length (fitting e t) = 1)
      \<and> links t cs)"

lemma pend_mset_empty: "pend_mset Map.empty = {#}"
  by (simp add: pend_mset_def pending_def)

lemma pend_mset_update:
  "pend_mset (cs(d \<mapsto> b)) + mset (pending cs d) = pend_mset cs + mset b"
  by (cases d) (simp_all add: pend_mset_def pending_def)

lemma mid_empty: "mid t Map.empty \<longleftrightarrow> well_formed t"
  by (auto simp: mid_def links_def well_formed_iff [of t] node_ok_def pend_mset_empty)

lemma child_ok_geom:
  assumes "geom t' = geom t" "maxElements (node t') = maxElements (node t)"
  shows "child_ok t' d c = child_ok t d c"
  using assms(2) assms(1)
  by (simp add: child_ok_def geom_def splitTree_geom [OF assms(1)] calculateDirection_geom [OF assms(1)])

lemma elems_map_node:
  assumes "mset (oversized (f (node t))) + mset (contents (f (node t))) + m1
             = mset (oversized (node t)) + mset (contents (node t)) + m2"
  shows "elems (map_node f t) + m1 = elems t + m2"
proof -
  have "elems (map_node f t) + m1 = (mset (oversized (f (node t))) + mset (contents (f (node t))) + m1)
      + (celems (child NW t) + celems (child NE t) + celems (child SW t) + celems (child SE t))"
    by (simp add: elems_eq [of "map_node f t"] node_map_node child_map_node)
  also have "\<dots> = elems t + m2"
    unfolding assms by (simp add: elems_eq [of t])
  finally show ?thesis .
qed

lemma links_geom:
  assumes "geom t' = geom t" "maxElements (node t') = maxElements (node t)"
    "\<And>d. child d t' = child d t"
  shows "links t' cs = links t cs"
  by (simp add: links_def assms(3) child_ok_geom [OF assms(1,2)] calculateDirection_geom [OF assms(1)])

lemma elems_set_child:
  "elems (set_child d c t) + celems (child d t) = elems t + celems c"
proof -
  have "elems (set_child d c t) = mset (oversized (node t)) + mset (contents (node t))
      + celems (child NW (set_child d c t)) + celems (child NE (set_child d c t))
      + celems (child SW (set_child d c t)) + celems (child SE (set_child d c t))"
    using elems_eq [of "set_child d c t"] by (simp add: node_set_child)
  then show ?thesis
    unfolding elems_eq [of t] by (cases d) (simp_all add: child_set_child)
qed

lemma elems_set_child_None:
  "child d t = None \<Longrightarrow> elems (set_child d c t) = elems t + celems c"
  using elems_set_child [of d c t] by (simp add: celems_def)

lemma create_well_formed:
  assumes "create d t = Inr c" "1 \<le> maxElements (node t)" "2 \<le> tree_width (node t)" "2 \<le> tree_height (node t)"
  shows "well_formed c" "child_ok t d c" "elems c = {#}"
proof -
  note c = create_Inr [OF assms(1)]
  have e: "elems c = {#}"
    by (simp add: elems_eq [of c] c celems_def)
  have m: "maxElements (node c) = maxElements (node t)"
    using assms(2) c(5) by (simp add: orElse_def)
  show "elems c = {#}" by (rule e)
  show "well_formed c"
    unfolding well_formed_iff [of c] node_ok_def using c e by simp
  show "child_ok t d c"
    unfolding child_ok_def using c e m assms by simp
qed

lemma create_succeeds:
  assumes "1 \<le> maxElements (node t)" "2 \<le> tree_width (node t)" "2 \<le> tree_height (node t)"
  shows "\<exists>c. create d t = Inr c"
proof -
  have "1 \<le> floorHalf (tree_width (node t))" "1 \<le> floorHalf (tree_height (node t))"
    "1 \<le> ceilHalf (tree_width (node t))" "1 \<le> ceilHalf (tree_height (node t))"
    using assms floorHalf_pos ceilHalf_pos by simp_all
  then show ?thesis
    using assms(1)
    by (cases d) (simp_all add: create_def new_QuadTree_def Let_def orElse_def isInteger_def)
qed

lemma addCandidate_slots:
  assumes "slots t cs" "calculateDirection e t = d"
  shows "\<exists>t' cs'. addCandidate d e (t, cs) = (None, t', cs') \<and> slots t' cs'
           \<and> node t' = node t \<and> elems t' = elems t \<and> pend_mset cs' = pend_mset cs + {#e#}"
proof (cases "cs d")
  case (Some b)
  have "slots t (cs(d \<mapsto> b @ [e]))"
    using assms Some unfolding slots_def links_def by auto
  moreover have "pend_mset (cs(d \<mapsto> b @ [e])) = pend_mset cs + {#e#}"
    using pend_mset_update [of cs d "b @ [e]"] Some by (simp add: pending_def)
  ultimately show ?thesis
    using Some by (simp add: addCandidate_def)
next
  case None
  note cn = None
  have p: "pend_mset (cs(d \<mapsto> [e])) = pend_mset cs + {#e#}"
    using pend_mset_update [of cs d "[e]"] None by (simp add: pending_def)
  show ?thesis
  proof (cases "child d t")
    case (Some c)
    then have g: "get d t = Inr t"
      by (simp add: get_def)
    have "slots t (cs(d \<mapsto> [e]))"
      using assms Some unfolding slots_def links_def by auto
    with g p cn show ?thesis
      by (simp add: addCandidate_def)
  next
    case None
    from assms(1) have d: "1 \<le> maxElements (node t)" "2 \<le> tree_width (node t)" "2 \<le> tree_height (node t)"
      by (simp_all add: slots_def)
    from create_succeeds [OF d] obtain c where c: "create d t = Inr c"
      by blast
    note cw = create_well_formed [OF c d]
    let ?t' = "set_child d (Some c) t"
    have g: "get d t = Inr ?t'"
      using None c by (simp add: get_def)
    have ok: "child_ok ?t' d' c' = child_ok t d' c'" for d' c'
      by (rule child_ok_geom) (simp_all add: geom_set_child node_set_child)
    have cd: "calculateDirection x ?t' = calculateDirection x t" for x :: Element
      by (rule calculateDirection_geom) (rule geom_set_child)
    have "slots ?t' (cs(d \<mapsto> [e]))"
      unfolding slots_def links_def node_set_child child_set_child ok cd
      using assms cw(1,2) unfolding slots_def links_def by auto
    moreover have "elems ?t' = elems t"
      using elems_set_child_None [OF None, of "Some c"] cw(3) by (simp add: celems_def)
    ultimately show ?thesis
      using g p cn by (simp add: addCandidate_def node_set_child)
  qed
qed

lemma flush_slots:
  assumes "slots t cs" "\<forall>e \<in> set xs. length (fitting e t) = 1"
  shows "\<exists>t' cs'. forEach flushOne xs (t, cs) = (None, t', cs') \<and> slots t' cs'
           \<and> node t' = node t \<and> elems t' = elems t \<and> pend_mset cs' = pend_mset cs + mset xs"
  using assms
proof (induction xs arbitrary: t cs)
  case Nil
  then show ?case by simp
next
  case (Cons x xs)
  from Cons.prems(2) obtain d where d: "fitting x t = [d]"
    by (cases "fitting x t") auto
  from Cons.prems(1) have wh: "2 \<le> tree_width (node t)" "2 \<le> tree_height (node t)"
    by (simp_all add: slots_def)
  have "calculateDirection x t = d"
    using fitting_single_direction [OF d wh] .
  from addCandidate_slots [OF Cons.prems(1) this]
  obtain t1 cs1 where a: "addCandidate d x (t, cs) = (None, t1, cs1)" "slots t1 cs1"
    "node t1 = node t" "elems t1 = elems t" "pend_mset cs1 = pend_mset cs + {#x#}"
    by blast
  have g: "geom t1 = geom t"
    using a(3) by (simp add: geom_def)
  have "\<forall>e \<in> set xs. length (fitting e t1) = 1"
    using Cons.prems(2) by (simp add: fitting_geom [OF g])
  from Cons.IH [OF a(2) this]
  obtain t' cs' where f: "forEach flushOne xs (t1, cs1) = (None, t', cs')" "slots t' cs'"
    "node t' = node t1" "elems t' = elems t1" "pend_mset cs' = pend_mset cs1 + mset xs"
    by blast
  have "forEach flushOne (x # xs) (t, cs) = (None, t', cs')"
    using d a(1) f(1) by (simp add: flushOne_def)
  with f a show ?case by simp
qed


lemma place_mid:
  assumes "mid t cs"
  shows "\<exists>t' cs'. place e (t, cs) = (None, t', cs') \<and> mid t' cs'
           \<and> elems t' + pend_mset cs' = elems t + pend_mset cs + {#e#}
           \<and> geom t' = geom t \<and> maxElements (node t') = maxElements (node t)"
proof -
  let ?t1 = "map_node (\<lambda>n. n\<lparr>tree_size := tree_size n + 1\<rparr>) t"
  have n1: "node ?t1 = (node t)\<lparr>tree_size := tree_size (node t) + 1\<rparr>"
    by (simp add: node_map_node)
  have g1: "geom ?t1 = geom t"
    by (simp add: geom_def n1)
  have e1: "elems ?t1 = elems t"
    using elems_map_node [of "\<lambda>n. n\<lparr>tree_size := tree_size n + 1\<rparr>" t "{#}" "{#}"] by simp
  from assms have dims: "1 \<le> tree_width (node t)" "1 \<le> tree_height (node t)" "1 \<le> maxElements (node t)"
    and sz: "tree_size (node t) = int (size (elems t + pend_mset cs))"
    and cap: "contents (node t) \<noteq> [] \<Longrightarrow>
            tree_size (node t) - int (length (oversized (node t))) \<le> maxElements (node t)
            \<and> 2 \<le> tree_width (node t) \<and> 2 \<le> tree_height (node t)"
    and fit: "\<forall>x \<in> set (contents (node t)). length (fitting x t) = 1"
    and lk: "links t cs"
    by (simp_all add: mid_def)
  have lk1: "links ?t1 cs"
    using lk links_geom [OF g1, of cs] by (simp add: n1 child_map_node)
  show ?thesis
  proof (cases "length (fitting e ?t1) \<noteq> 1 \<or> tree_width (node ?t1) = 1 \<or> tree_height (node ?t1) = 1")
    case True
    let ?t' = "map_node (\<lambda>n. n\<lparr>oversized := oversized n @ [e]\<rparr>) ?t1"
    have p: "place e (t, cs) = (None, ?t', cs)"
      using True by (simp add: place_def Let_def)
    have n': "node ?t' = (node t)\<lparr>tree_size := tree_size (node t) + 1, oversized := oversized (node t) @ [e]\<rparr>"
      by (simp add: node_map_node)
    have g': "geom ?t' = geom t"
      by (simp add: geom_def n')
    have e': "elems ?t' = elems t + {#e#}"
      using elems_map_node [of "\<lambda>n. n\<lparr>oversized := oversized n @ [e]\<rparr>" ?t1 "{#}" "{#e#}"] e1
      by (simp add: n1)
    have "links ?t' cs"
      using lk links_geom [OF g', of cs] by (simp add: n' child_map_node)
    then have "mid ?t' cs"
      unfolding mid_def n' e' using dims sz cap fit by (auto simp add: fitting_geom [OF g'])
    with p e' g' n' show ?thesis by simp
  next
    case False
    then obtain d where d: "fitting e ?t1 = [d]"
      by (cases "fitting e ?t1") auto
    from False dims have wh: "2 \<le> tree_width (node t)" "2 \<le> tree_height (node t)"
      by (simp_all add: n1)
    show ?thesis
    proof (cases "tree_size (node ?t1) - int (length (oversized (node ?t1))) \<le> maxElements (node ?t1)")
      case True
      let ?t' = "map_node (\<lambda>n. n\<lparr>contents := contents n @ [e]\<rparr>) ?t1"
      have p: "place e (t, cs) = (None, ?t', cs)"
        using True False by (simp add: place_def Let_def)
      have n': "node ?t' = (node t)\<lparr>tree_size := tree_size (node t) + 1, contents := contents (node t) @ [e]\<rparr>"
        by (simp add: node_map_node)
      have g': "geom ?t' = geom t"
        by (simp add: geom_def n')
      have e': "elems ?t' = elems t + {#e#}"
        using elems_map_node [of "\<lambda>n. n\<lparr>contents := contents n @ [e]\<rparr>" ?t1 "{#}" "{#e#}"] e1
        by (simp add: n1)
      have fe: "length (fitting e t) = 1"
        using d by (simp add: fitting_geom [OF g1, symmetric])
      have "links ?t' cs"
        using lk links_geom [OF g', of cs] by (simp add: n' child_map_node)
      then have "mid ?t' cs"
        unfolding mid_def n' e' using dims sz fit True wh fe
        by (auto simp add: fitting_geom [OF g'] n1)
      with p e' g' n' show ?thesis by simp
    next
      case over: False
      have sl: "slots ?t1 cs"
        unfolding slots_def using lk1 dims wh by (simp add: n1)
      have cd: "calculateDirection e ?t1 = d"
        using fitting_single_direction [OF d] wh by (simp add: n1)
      from addCandidate_slots [OF sl cd]
      obtain t2 cs2 where a: "addCandidate d e (?t1, cs) = (None, t2, cs2)" "slots t2 cs2"
        "node t2 = node ?t1" "elems t2 = elems ?t1" "pend_mset cs2 = pend_mset cs + {#e#}"
        by blast
      have g2: "geom t2 = geom t"
        using a(3) by (simp add: geom_def n1)
      have "\<forall>x \<in> set (contents (node ?t1)). length (fitting x t2) = 1"
        using fit by (simp add: fitting_geom [OF g2] n1)
      from flush_slots [OF a(2) this]
      obtain t3 cs3 where f: "forEach flushOne (contents (node ?t1)) (t2, cs2) = (None, t3, cs3)"
        "slots t3 cs3" "node t3 = node t2" "elems t3 = elems t2"
        "pend_mset cs3 = pend_mset cs2 + mset (contents (node ?t1))"
        by blast
      let ?t' = "map_node (\<lambda>n. n\<lparr>contents := []\<rparr>) t3"
      have p: "place e (t, cs) = (None, ?t', cs3)"
        using False over d a(1) f(1) by (simp add: place_def Let_def)
      have n3: "node t3 = (node t)\<lparr>tree_size := tree_size (node t) + 1\<rparr>"
        using f(3) a(3) n1 by simp
      have n': "node ?t' = (node t)\<lparr>tree_size := tree_size (node t) + 1, contents := []\<rparr>"
        by (simp add: node_map_node n3)
      have g': "geom ?t' = geom t"
        by (simp add: geom_def n')
      have g3: "geom ?t' = geom t3"
        by (simp add: geom_def n' n3)
      have e': "elems ?t' + mset (contents (node t)) = elems t"
        using elems_map_node [of "\<lambda>n. n\<lparr>contents := []\<rparr>" t3 "mset (contents (node t))" "{#}"]
          f(4) a(4) e1 by (simp add: n3)
      have tot: "elems ?t' + pend_mset cs3 = elems t + pend_mset cs + {#e#}"
      proof -
        have "elems ?t' + pend_mset cs3 = (elems ?t' + mset (contents (node t))) + (pend_mset cs + {#e#})"
          using f(5) a(5) by (simp add: n1)
        then show ?thesis unfolding e' by simp
      qed
      have "links ?t' cs3"
        using f(2) links_geom [OF g3, of cs3] by (simp add: slots_def n' n3 child_map_node)
      then have "mid ?t' cs3"
        unfolding mid_def n' tot using dims sz by auto
      with p tot g' n' show ?thesis by simp
    qed
  qed
qed

lemma batch_mid:
  assumes "mid t cs"
  shows "\<exists>t' cs'. forEach place es (t, cs) = (None, t', cs') \<and> mid t' cs'
           \<and> elems t' + pend_mset cs' = elems t + pend_mset cs + mset es
           \<and> geom t' = geom t \<and> maxElements (node t') = maxElements (node t)"
  using assms
proof (induction es arbitrary: t cs)
  case Nil
  then show ?case by simp
next
  case (Cons e es)
  from place_mid [OF Cons.prems, of e]
  obtain t1 cs1 where p: "place e (t, cs) = (None, t1, cs1)" "mid t1 cs1"
    "elems t1 + pend_mset cs1 = elems t + pend_mset cs + {#e#}"
    "geom t1 = geom t" "maxElements (node t1) = maxElements (node t)"
    by blast
  from Cons.IH [OF p(2)]
  obtain t' cs' where b: "forEach place es (t1, cs1) = (None, t', cs')" "mid t' cs'"
    "elems t' + pend_mset cs' = elems t1 + pend_mset cs1 + mset es"
    "geom t' = geom t1" "maxElements (node t') = maxElements (node t1)"
    by blast
  have "forEach place (e # es) (t, cs) = (None, t', cs')"
    using p(1) b(1) by simp
  moreover have "elems t' + pend_mset cs' = elems t + pend_mset cs + mset (e # es)"
    using b(3) p(3) by simp
  ultimately show ?case
    using b p by auto
qed

section \<open>The insertion, node by node\<close>

text \<open>
  The worklist of \<open>pushAll\<close> serves one node at a time, and the entries a node creates are
  for its own children. \<open>push_rec\<close> is the same insertion read along the tree: the batch
  of a node, then the batches of its children. It is a device of the proofs;
  \<open>pushAll_loop_apply_all\<close> below shows that the loop of the source computes it.
\<close>

function push_rec :: "QuadTree \<Rightarrow> Element list \<Rightarrow> QuadTree option" where
  "push_rec t es =
     (case forEach place es (t, Map.empty) of
        (Some e, s) \<Rightarrow> None
      | (None, t', cs) \<Rightarrow>
          Option.bind
            (case cs NW of None \<Rightarrow> Some t' | Some b \<Rightarrow>
               (case child NW t' of None \<Rightarrow> Some t' | Some c \<Rightarrow>
                  (case push_rec c b of None \<Rightarrow> None | Some c' \<Rightarrow> Some (set_child NW (Some c') t'))))
          (\<lambda>t1. Option.bind
            (case cs NE of None \<Rightarrow> Some t1 | Some b \<Rightarrow>
               (case child NE t' of None \<Rightarrow> Some t1 | Some c \<Rightarrow>
                  (case push_rec c b of None \<Rightarrow> None | Some c' \<Rightarrow> Some (set_child NE (Some c') t1))))
          (\<lambda>t2. Option.bind
            (case cs SW of None \<Rightarrow> Some t2 | Some b \<Rightarrow>
               (case child SW t' of None \<Rightarrow> Some t2 | Some c \<Rightarrow>
                  (case push_rec c b of None \<Rightarrow> None | Some c' \<Rightarrow> Some (set_child SW (Some c') t2))))
          (\<lambda>t3.
            (case cs SE of None \<Rightarrow> Some t3 | Some b \<Rightarrow>
               (case child SE t' of None \<Rightarrow> Some t3 | Some c \<Rightarrow>
                  (case push_rec c b of None \<Rightarrow> None | Some c' \<Rightarrow> Some (set_child SE (Some c') t3))))))))"
  by pat_completeness auto
termination
proof (relation "measure (\<lambda>(t, es). potential t)", goal_cases)
  case 1
  show ?case by simp
next
  case (2 t es x y t' cs b c)
  then have "forEach place es (t, Map.empty) = (None, t', cs)" "child NW t' = Some c"
    by simp_all
  then show ?case
    using batch_shrink [of es t Map.empty None t' cs] potential_child [of NW t' c]
    by (simp add: shrink_def)
next
  case (3 t es x y t' cs t1 b c)
  then have "forEach place es (t, Map.empty) = (None, t', cs)" "child NE t' = Some c"
    by simp_all
  then show ?case
    using batch_shrink [of es t Map.empty None t' cs] potential_child [of NE t' c]
    by (simp add: shrink_def)
next
  case (4 t es x y t' cs t1 t2 b c)
  then have "forEach place es (t, Map.empty) = (None, t', cs)" "child SW t' = Some c"
    by simp_all
  then show ?case
    using batch_shrink [of es t Map.empty None t' cs] potential_child [of SW t' c]
    by (simp add: shrink_def)
next
  case (5 t es x y t' cs t1 t2 t3 b c)
  then have "forEach place es (t, Map.empty) = (None, t', cs)" "child SE t' = Some c"
    by simp_all
  then show ?case
    using batch_shrink [of es t Map.empty None t' cs] potential_child [of SE t' c]
    by (simp add: shrink_def)
qed


declare push_rec.simps [simp del]

definition descend :: "candidates \<Rightarrow> Direction \<Rightarrow> QuadTree \<Rightarrow> QuadTree option" where
  "descend cs d t =
     (case cs d of
        None \<Rightarrow> Some t
      | Some b \<Rightarrow>
          (case child d t of
             None \<Rightarrow> Some t
           | Some c \<Rightarrow> (case push_rec c b of None \<Rightarrow> None | Some c' \<Rightarrow> Some (set_child d (Some c') t))))"

definition descend_all :: "candidates \<Rightarrow> QuadTree \<Rightarrow> QuadTree option" where
  "descend_all cs t =
     Option.bind (descend cs NW t) (\<lambda>t1. Option.bind (descend cs NE t1)
       (\<lambda>t2. Option.bind (descend cs SW t2) (descend cs SE)))"

lemma descend_child:
  "descend cs d t = Some t' \<Longrightarrow> d' \<noteq> d \<Longrightarrow> child d' t' = child d' t"
  by (auto simp: descend_def child_set_child split: option.splits)

lemma push_rec_unfold:
  "push_rec t es =
     (case forEach place es (t, Map.empty) of
        (Some e, s) \<Rightarrow> None
      | (None, t', cs) \<Rightarrow> descend_all cs t')"
proof (cases "forEach place es (t, Map.empty)" rule: prod_cases3)
  case (fields r t' cs)
  show ?thesis
  proof (cases r)
    case (Some e)
    with fields show ?thesis by (simp add: push_rec.simps [of t es])
  next
    case None
    have a: "(case cs d of None \<Rightarrow> Some tt | Some b \<Rightarrow>
               (case child d t' of None \<Rightarrow> Some tt | Some c \<Rightarrow>
                  (case push_rec c b of None \<Rightarrow> None | Some c' \<Rightarrow> Some (set_child d (Some c') tt))))
             = descend cs d tt" if "child d tt = child d t'" for d tt
      using that by (simp add: descend_def split: option.splits)
    have "push_rec t es = descend_all cs t'"
    proof (cases "descend cs NW t'")
      case None
      then show ?thesis
        using fields \<open>r = None\<close> by (simp add: push_rec.simps [of t es] a descend_all_def)
    next
      case (Some t1)
      note s1 = Some
      have c1: "child NE t1 = child NE t'" "child SW t1 = child SW t'" "child SE t1 = child SE t'"
        using descend_child [OF s1, of NE] descend_child [OF s1, of SW] descend_child [OF s1, of SE]
        by simp_all
      show ?thesis
      proof (cases "descend cs NE t1")
        case None
        then show ?thesis
          using fields \<open>r = None\<close> s1 c1 by (simp add: push_rec.simps [of t es] a descend_all_def)
      next
        case (Some t2)
        note s2 = Some
        have c2: "child SW t2 = child SW t'" "child SE t2 = child SE t'"
          using descend_child [OF s2, of SW] descend_child [OF s2, of SE] c1 by simp_all
        show ?thesis
        proof (cases "descend cs SW t2")
          case None
          then show ?thesis
            using fields \<open>r = None\<close> s1 s2 c1 c2
            by (simp add: push_rec.simps [of t es] a descend_all_def)
        next
          case (Some t3)
          have c3: "child SE t3 = child SE t'"
            using descend_child [OF Some, of SE] c2 by simp
          show ?thesis
            using fields \<open>r = None\<close> s1 s2 Some c1 c2 c3
            by (simp add: push_rec.simps [of t es] a descend_all_def)
        qed
      qed
    qed
    with fields None show ?thesis by simp
  qed
qed

lemma pend_mset_remove:
  "pend_mset (cs(d := None)) + mset (pending cs d) = pend_mset cs"
  by (cases d) (simp_all add: pend_mset_def pending_def)

lemma child_ok_replace:
  assumes "child_ok t d c" "geom c' = geom c" "maxElements (node c') = maxElements (node c)"
    "\<forall>e \<in># elems c'. calculateDirection e t = d"
  shows "child_ok t d c'"
  using assms by (simp add: child_ok_def geom_def)

lemma descend_mid:
  assumes IH: "\<And>c b. potential c < n \<Longrightarrow> well_formed c \<Longrightarrow>
      \<exists>c'. push_rec c b = Some c' \<and> well_formed c' \<and> elems c' = elems c + mset b
         \<and> geom c' = geom c \<and> maxElements (node c') = maxElements (node c)"
    and m: "mid t cs'" and eq: "cs' d = cs d"
    and small: "\<And>c. child d t = Some c \<Longrightarrow> potential c < n"
  shows "\<exists>t'. descend cs d t = Some t' \<and> mid t' (cs'(d := None))
           \<and> elems t' + pend_mset (cs'(d := None)) = elems t + pend_mset cs'
           \<and> geom t' = geom t \<and> maxElements (node t') = maxElements (node t)
           \<and> (\<forall>d'. d' \<noteq> d \<longrightarrow> child d' t' = child d' t)"
proof (cases "cs d")
  case None
  with eq have "cs'(d := None) = cs'"
    by (simp add: fun_eq_iff)
  with None m show ?thesis
    by (simp add: descend_def)
next
  case (Some b)
  with eq have cb: "cs' d = Some b" by simp
  from m have lk: "links t cs'" by (simp add: mid_def)
  with cb obtain c where c: "child d t = Some c"
    unfolding links_def by blast
  from lk c have wc: "well_formed c" and ok: "child_ok t d c"
    unfolding links_def by blast+
  from lk cb have rb: "\<forall>e \<in> set b. calculateDirection e t = d"
    unfolding links_def by blast
  from IH [OF small [OF c] wc, of b]
  obtain c' where c': "push_rec c b = Some c'" "well_formed c'" "elems c' = elems c + mset b"
    "geom c' = geom c" "maxElements (node c') = maxElements (node c)"
    by blast
  let ?t' = "set_child d (Some c') t"
  have de: "descend cs d t = Some ?t'"
    using Some c c' by (simp add: descend_def)
  have g: "geom ?t' = geom t"
    by (rule geom_set_child)
  have el: "elems ?t' = elems t + mset b"
  proof -
    have "elems ?t' + elems c = elems t + elems c'"
      using elems_set_child [of d "Some c'" t] c by (simp add: celems_def)
    then show ?thesis unfolding c'(3) by simp
  qed
  have pe: "pend_mset (cs'(d := None)) + mset b = pend_mset cs'"
    using pend_mset_remove [of cs' d] cb by (simp add: pending_def)
  have tot: "elems ?t' + pend_mset (cs'(d := None)) = elems t + pend_mset cs'"
    unfolding el using pe by (simp add: add.assoc add.commute [of "mset b"])
  have okk: "child_ok ?t' d'' x = child_ok t d'' x" for d'' x
    by (rule child_ok_geom) (simp_all add: g node_set_child)
  have cd: "calculateDirection x ?t' = calculateDirection x t" for x :: Element
    by (rule calculateDirection_geom) (rule g)
  have ok': "child_ok t d c'"
  proof (rule child_ok_replace [OF ok c'(4) c'(5)])
    from ok have "\<forall>e \<in># elems c. calculateDirection e t = d"
      by (simp add: child_ok_def)
    with rb show "\<forall>e \<in># elems c'. calculateDirection e t = d"
      unfolding c'(3) by auto
  qed
  have lk': "links ?t' (cs'(d := None))"
    unfolding links_def child_set_child okk cd
    using lk c'(2) ok' unfolding links_def by (auto split: if_splits)
  have "mid ?t' (cs'(d := None))"
    unfolding mid_def tot node_set_child
    using m lk' unfolding mid_def by (auto simp add: fitting_geom [OF g])
  with de tot g show ?thesis
    by (simp add: node_set_child child_set_child)
qed

lemma restrict_all: "cs(NW := None, NE := None, SW := None, SE := None) = Map.empty"
proof
  fix d
  show "(cs(NW := None, NE := None, SW := None, SE := None)) d = Map.empty d"
    by (cases d) simp_all
qed

lemma push_rec_well_formed:
  "well_formed t \<Longrightarrow>
     \<exists>t'. push_rec t es = Some t' \<and> well_formed t' \<and> elems t' = elems t + mset es
        \<and> geom t' = geom t \<and> maxElements (node t') = maxElements (node t)"
proof (induction "potential t" arbitrary: t es rule: less_induct)
  case less
  let ?n = "potential t"
  have IH: "\<And>c b. potential c < ?n \<Longrightarrow> well_formed c \<Longrightarrow>
      \<exists>c'. push_rec c b = Some c' \<and> well_formed c' \<and> elems c' = elems c + mset b
         \<and> geom c' = geom c \<and> maxElements (node c') = maxElements (node c)"
    using less.hyps by blast
  from less.prems have "mid t Map.empty"
    by (simp add: mid_empty)
  from batch_mid [OF this, of es]
  obtain t0 cs where b: "forEach place es (t, Map.empty) = (None, t0, cs)" "mid t0 cs"
    "elems t0 + pend_mset cs = elems t + mset es" "geom t0 = geom t"
    "maxElements (node t0) = maxElements (node t)"
    by (auto simp: pend_mset_empty)
  have p0: "potential t0 \<le> ?n"
    using batch_shrink [OF b(1)] by (simp add: shrink_def)
  have s0: "potential c < ?n" if "child d t0 = Some c" for c d
    using potential_child [OF that] p0 by simp
  have "\<exists>t'. descend cs NW t0 = Some t' \<and> mid t' (cs(NW := None))
           \<and> elems t' + pend_mset (cs(NW := None)) = elems t0 + pend_mset (cs)
           \<and> geom t' = geom t0 \<and> maxElements (node t') = maxElements (node t0)
           \<and> (\<forall>d'. d' \<noteq> NW \<longrightarrow> child d' t' = child d' t0)"
    apply (rule descend_mid [where n = ?n and cs' = "cs" and d = NW and t = t0 and cs = cs])
       apply (rule IH; assumption)
      apply (rule b(2))
     apply simp
    apply (erule s0)
    done
  then obtain t1 where t1: "descend cs NW t0 = Some t1" "mid t1 (cs(NW := None))"
    "elems t1 + pend_mset (cs(NW := None)) = elems t0 + pend_mset (cs)"
    "geom t1 = geom t0" "maxElements (node t1) = maxElements (node t0)"
    "\<forall>d'. d' \<noteq> NW \<longrightarrow> child d' t1 = child d' t0"
    by blast
  have s1: "potential c < ?n" if "child NE t1 = Some c" for c
    using that t1(6) s0 [of NE c] by simp
  have "\<exists>t'. descend cs NE t1 = Some t' \<and> mid t' (cs(NW := None, NE := None))
           \<and> elems t' + pend_mset (cs(NW := None, NE := None)) = elems t1 + pend_mset (cs(NW := None))
           \<and> geom t' = geom t1 \<and> maxElements (node t') = maxElements (node t1)
           \<and> (\<forall>d'. d' \<noteq> NE \<longrightarrow> child d' t' = child d' t1)"
    apply (rule descend_mid [where n = ?n and cs' = "cs(NW := None)" and d = NE and t = t1 and cs = cs])
       apply (rule IH; assumption)
      apply (rule t1(2))
     apply simp
    apply (erule s1)
    done
  then obtain t2 where t2: "descend cs NE t1 = Some t2" "mid t2 (cs(NW := None, NE := None))"
    "elems t2 + pend_mset (cs(NW := None, NE := None)) = elems t1 + pend_mset (cs(NW := None))"
    "geom t2 = geom t1" "maxElements (node t2) = maxElements (node t1)"
    "\<forall>d'. d' \<noteq> NE \<longrightarrow> child d' t2 = child d' t1"
    by blast
  have s2: "potential c < ?n" if "child SW t2 = Some c" for c
    using that t2(6) t1(6) s0 [of SW c] by simp
  have "\<exists>t'. descend cs SW t2 = Some t' \<and> mid t' (cs(NW := None, NE := None, SW := None))
           \<and> elems t' + pend_mset (cs(NW := None, NE := None, SW := None)) = elems t2 + pend_mset (cs(NW := None, NE := None))
           \<and> geom t' = geom t2 \<and> maxElements (node t') = maxElements (node t2)
           \<and> (\<forall>d'. d' \<noteq> SW \<longrightarrow> child d' t' = child d' t2)"
    apply (rule descend_mid [where n = ?n and cs' = "cs(NW := None, NE := None)" and d = SW and t = t2 and cs = cs])
       apply (rule IH; assumption)
      apply (rule t2(2))
     apply simp
    apply (erule s2)
    done
  then obtain t3 where t3: "descend cs SW t2 = Some t3" "mid t3 (cs(NW := None, NE := None, SW := None))"
    "elems t3 + pend_mset (cs(NW := None, NE := None, SW := None)) = elems t2 + pend_mset (cs(NW := None, NE := None))"
    "geom t3 = geom t2" "maxElements (node t3) = maxElements (node t2)"
    "\<forall>d'. d' \<noteq> SW \<longrightarrow> child d' t3 = child d' t2"
    by blast
  have s3: "potential c < ?n" if "child SE t3 = Some c" for c
    using that t3(6) t2(6) t1(6) s0 [of SE c] by simp
  have "\<exists>t'. descend cs SE t3 = Some t' \<and> mid t' (cs(NW := None, NE := None, SW := None, SE := None))
           \<and> elems t' + pend_mset (cs(NW := None, NE := None, SW := None, SE := None)) = elems t3 + pend_mset (cs(NW := None, NE := None, SW := None))
           \<and> geom t' = geom t3 \<and> maxElements (node t') = maxElements (node t3)
           \<and> (\<forall>d'. d' \<noteq> SE \<longrightarrow> child d' t' = child d' t3)"
    apply (rule descend_mid [where n = ?n and cs' = "cs(NW := None, NE := None, SW := None)" and d = SE and t = t3 and cs = cs])
       apply (rule IH; assumption)
      apply (rule t3(2))
     apply simp
    apply (erule s3)
    done
  then obtain t4 where t4: "descend cs SE t3 = Some t4" "mid t4 (cs(NW := None, NE := None, SW := None, SE := None))"
    "elems t4 + pend_mset (cs(NW := None, NE := None, SW := None, SE := None)) = elems t3 + pend_mset (cs(NW := None, NE := None, SW := None))"
    "geom t4 = geom t3" "maxElements (node t4) = maxElements (node t3)"
    "\<forall>d'. d' \<noteq> SE \<longrightarrow> child d' t4 = child d' t3"
    by blast
  have "push_rec t es = Some t4"
    using b(1) t1(1) t2(1) t3(1) t4(1) by (simp add: push_rec_unfold descend_all_def)
  moreover have "well_formed t4"
    using t4(2) by (simp add: restrict_all mid_empty)
  moreover have "elems t4 = elems t + mset es"
    using t4(3) t3(3) t2(3) t1(3) b(3) by (simp add: restrict_all pend_mset_empty)
  ultimately show ?case
    using t4 t3 t2 t1 b by simp
qed

section \<open>The loop of the source computes the insertion node by node\<close>

definition step_at :: "path \<times> Element list \<Rightarrow> QuadTree \<Rightarrow> QuadTree option" where
  "step_at entry w =
     (case node_at w (fst entry) of
        None \<Rightarrow> Some w
      | Some t \<Rightarrow> map_option (replace_at w (fst entry)) (push_rec t (snd entry)))"

fun apply_all :: "(path \<times> Element list) list \<Rightarrow> QuadTree \<Rightarrow> QuadTree option" where
  "apply_all [] w = Some w"
| "apply_all (entry # fifo) w = Option.bind (step_at entry w) (apply_all fifo)"

fun antichain :: "path list \<Rightarrow> bool" where
  "antichain [] = True"
| "antichain (p # ps) = ((\<forall>q \<in> set ps. p \<parallel> q) \<and> antichain ps)"

lemma replace_at_invalid: "node_at w p = None \<Longrightarrow> replace_at w p n = w"
proof (induction p arbitrary: w)
  case Nil
  then show ?case by simp
next
  case (Cons d p)
  show ?case
  proof (cases "child d w")
    case None
    then show ?thesis by simp
  next
    case (Some c)
    with Cons.prems have "node_at c p = None" by simp
    from Cons.IH [OF this] Some show ?thesis
      by (simp add: set_child_same)
  qed
qed

lemma node_at_replace_parallel:
  "p \<parallel> q \<Longrightarrow> node_at (replace_at w p n) q = node_at w q"
proof (induction p arbitrary: w q)
  case Nil
  then show ?case by simp
next
  case (Cons d p)
  from Cons.prems obtain d' q' where q: "q = d' # q'"
    by (cases q) auto
  show ?case
  proof (cases "child d w")
    case None
    then show ?thesis by simp
  next
    case (Some c)
    show ?thesis
    proof (cases "d' = d")
      case True
      with Cons.prems q have "p \<parallel> q'" by (simp add: parallel_def)
      from Cons.IH [OF this, of c] Some True q show ?thesis
        by (simp add: child_set_child)
    next
      case False
      with Some q show ?thesis
        by (simp add: child_set_child)
    qed
  qed
qed

lemma replace_at_commute:
  "p \<parallel> q \<Longrightarrow> replace_at (replace_at w p a) q b = replace_at (replace_at w q b) p a"
proof (induction p arbitrary: w q)
  case Nil
  then show ?case by simp
next
  case (Cons d p)
  from Cons.prems obtain d' q' where q: "q = d' # q'"
    by (cases q) auto
  show ?case
  proof (cases "d' = d")
    case True
    with Cons.prems q have par: "p \<parallel> q'" by (simp add: parallel_def)
    show ?thesis
    proof (cases "child d w")
      case None
      with True q show ?thesis by simp
    next
      case (Some c)
      from Cons.IH [OF par, of c] Some True q show ?thesis
        by (simp add: child_set_child set_child_twice)
    qed
  next
    case False
    show ?thesis
    proof (cases "child d w")
      case None
      note dn = None
      show ?thesis
      proof (cases "child d' w")
        case None
        with dn q show ?thesis by simp
      next
        case (Some c')
        with dn q False show ?thesis by (simp add: child_set_child)
      qed
    next
      case (Some c)
      note ds = Some
      show ?thesis
      proof (cases "child d' w")
        case None
        with ds q False show ?thesis by (simp add: child_set_child)
      next
        case (Some c')
        with ds q False show ?thesis
          by (simp add: child_set_child set_child_commute [of d d'])
      qed
    qed
  qed
qed

lemma step_at_commute:
  assumes "fst x \<parallel> fst y"
  shows "Option.bind (step_at x w) (step_at y) = Option.bind (step_at y w) (step_at x)"
proof -
  obtain p es where x: "x = (p, es)" by (cases x)
  obtain q es' where y: "y = (q, es')" by (cases y)
  from assms x y have par: "p \<parallel> q" "q \<parallel> p" by (simp_all add: parallel_commute)
  note np = node_at_replace_parallel [OF par(1)] and nq = node_at_replace_parallel [OF par(2)]
  show ?thesis
  proof (cases "node_at w p")
    case None
    note wp = None
    show ?thesis
    proof (cases "node_at w q")
      case None
      with wp show ?thesis
        unfolding x y by (simp add: step_at_def)
    next
      case (Some u)
      with wp show ?thesis
        unfolding x y by (cases "push_rec u es'") (simp_all add: step_at_def nq)
    qed
  next
    case (Some t)
    note wp = Some
    show ?thesis
    proof (cases "node_at w q")
      case None
      with wp show ?thesis
        unfolding x y by (cases "push_rec t es") (simp_all add: step_at_def np)
    next
      case (Some u)
      with wp show ?thesis
        unfolding x y
        by (cases "push_rec t es"; cases "push_rec u es'")
          (simp_all add: step_at_def np nq replace_at_commute [OF par(1)])
    qed
  qed
qed

lemma apply_all_Cons_fun:
  "apply_all (x # xs) = (\<lambda>w. Option.bind (step_at x w) (apply_all xs))"
  by (rule ext) simp

lemma bind_assoc_option:
  "Option.bind (Option.bind x f) g = Option.bind x (\<lambda>v. Option.bind (f v) g)"
  by (cases x) simp_all

lemma apply_all_append:
  "apply_all (xs @ ys) w = Option.bind (apply_all xs w) (apply_all ys)"
proof (induction xs arbitrary: w)
  case Nil
  show ?case by simp
next
  case (Cons x xs)
  show ?case
    by (cases "step_at x w") (simp_all add: Cons.IH)
qed

lemma step_apply_commute:
  assumes "\<forall>y \<in> set ys. fst x \<parallel> fst y"
  shows "Option.bind (step_at x w) (apply_all ys) = Option.bind (apply_all ys w) (step_at x)"
  using assms
proof (induction ys arbitrary: w)
  case Nil
  then show ?case by simp
next
  case (Cons y ys)
  have "Option.bind (step_at x w) (apply_all (y # ys))
      = Option.bind (Option.bind (step_at x w) (step_at y)) (apply_all ys)"
    by (simp add: bind_assoc_option apply_all_Cons_fun)
  also have "\<dots> = Option.bind (Option.bind (step_at y w) (step_at x)) (apply_all ys)"
    using step_at_commute [of x y w] Cons.prems by simp
  also have "\<dots> = Option.bind (step_at y w) (\<lambda>v. Option.bind (step_at x v) (apply_all ys))"
    by (simp add: bind_assoc_option)
  also have "\<dots> = Option.bind (step_at y w) (\<lambda>v. Option.bind (apply_all ys v) (step_at x))"
    using Cons.IH Cons.prems by simp
  also have "\<dots> = Option.bind (apply_all (y # ys) w) (step_at x)"
    by (simp add: bind_assoc_option)
  finally show ?case .
qed

lemma apply_all_commute:
  assumes "\<forall>x \<in> set xs. \<forall>y \<in> set ys. fst x \<parallel> fst y"
  shows "Option.bind (apply_all xs w) (apply_all ys) = Option.bind (apply_all ys w) (apply_all xs)"
  using assms
proof (induction xs arbitrary: w)
  case Nil
  show ?case by (cases "apply_all ys w") simp_all
next
  case (Cons x xs)
  have "Option.bind (apply_all (x # xs) w) (apply_all ys)
      = Option.bind (step_at x w) (\<lambda>v. Option.bind (apply_all xs v) (apply_all ys))"
    by (simp add: bind_assoc_option)
  also have "\<dots> = Option.bind (step_at x w) (\<lambda>v. Option.bind (apply_all ys v) (apply_all xs))"
    using Cons.IH Cons.prems by simp
  also have "\<dots> = Option.bind (Option.bind (step_at x w) (apply_all ys)) (apply_all xs)"
    by (simp add: bind_assoc_option)
  also have "\<dots> = Option.bind (Option.bind (apply_all ys w) (step_at x)) (apply_all xs)"
    using step_apply_commute [of ys x w] Cons.prems by simp
  also have "\<dots> = Option.bind (apply_all ys w) (apply_all (x # xs))"
    by (simp add: bind_assoc_option apply_all_Cons_fun)
  finally show ?case .
qed

lemma node_at_append:
  "node_at w (p @ q) = (case node_at w p of None \<Rightarrow> None | Some t \<Rightarrow> node_at t q)"
  by (induction p arbitrary: w) (simp_all split: option.splits)

lemma node_at_replace_same:
  "node_at w p = Some t \<Longrightarrow> node_at (replace_at w p n) p = Some n"
  by (induction p arbitrary: w) (auto simp: child_set_child split: option.splits)

lemma replace_at_append:
  "node_at w p = Some t \<Longrightarrow> replace_at w (p @ q) y = replace_at w p (replace_at t q y)"
  by (induction p arbitrary: w) (auto split: option.splits)

lemma replace_at_twice:
  "node_at w p = Some t \<Longrightarrow> replace_at (replace_at w p a) p b = replace_at w p b"
  by (induction p arbitrary: w) (auto simp: child_set_child set_child_twice split: option.splits)

lemma step_enqueue:
  assumes "node_at w p = Some t0" "cs d = Some b"
  shows "step_at (p @ [d], b) (replace_at w p tt) = map_option (replace_at w p) (descend cs d tt)"
proof -
  note s = node_at_replace_same [OF assms(1), of tt]
  have n: "node_at (replace_at w p tt) (p @ [d]) = child d tt"
    by (simp add: node_at_append s split: option.splits)
  have r: "replace_at (replace_at w p tt) (p @ [d]) c' = replace_at w p (replace_at tt [d] c')" for c'
    by (simp add: replace_at_append [OF s] replace_at_twice [OF assms(1)])
  show ?thesis
  proof (cases "child d tt")
    case None
    with n assms(2) show ?thesis
      by (simp add: step_at_def descend_def)
  next
    case (Some c)
    with n r assms(2) show ?thesis
      by (cases "push_rec c b") (simp_all add: step_at_def descend_def)
  qed
qed

definition entry_of :: "path \<Rightarrow> candidates \<Rightarrow> Direction \<Rightarrow> (path \<times> Element list) list" where
  "entry_of p cs d = (case cs d of None \<Rightarrow> [] | Some b \<Rightarrow> [(p @ [d], b)])"

lemma enqueue_entries:
  "enqueue p cs = entry_of p cs NW @ entry_of p cs NE @ entry_of p cs SW @ entry_of p cs SE"
  by (simp add: enqueue_def entry_of_def directions_def List.map_filter_def split: option.splits)

lemma apply_entry:
  assumes "node_at w p = Some t0"
  shows "apply_all (entry_of p cs d) (replace_at w p tt) = map_option (replace_at w p) (descend cs d tt)"
proof (cases "cs d")
  case None
  then show ?thesis by (simp add: entry_of_def descend_def)
next
  case (Some b)
  with step_enqueue [where cs = cs and d = d and b = b and tt = tt, OF assms] show ?thesis
    by (cases "descend cs d tt") (simp_all add: entry_of_def)
qed

lemma apply_enqueue:
  assumes "node_at w p = Some t0"
  shows "apply_all (enqueue p cs) (replace_at w p tt) = map_option (replace_at w p) (descend_all cs tt)"
proof -
  note a = apply_entry [OF assms, of cs]
  show ?thesis
  proof (cases "descend cs NW tt")
    case None
    then show ?thesis
      by (simp add: enqueue_entries apply_all_append a descend_all_def)
  next
    case (Some t1)
    note s1 = Some
    show ?thesis
    proof (cases "descend cs NE t1")
      case None
      with s1 show ?thesis
        by (simp add: enqueue_entries apply_all_append a descend_all_def)
    next
      case (Some t2)
      note s2 = Some
      show ?thesis
      proof (cases "descend cs SW t2")
        case None
        with s1 s2 show ?thesis
          by (simp add: enqueue_entries apply_all_append a descend_all_def)
      next
        case (Some t3)
        with s1 s2 show ?thesis
          by (simp add: enqueue_entries apply_all_append a descend_all_def)
      qed
    qed
  qed
qed

lemma antichain_append:
  "antichain (xs @ ys) \<longleftrightarrow> antichain xs \<and> antichain ys \<and> (\<forall>x \<in> set xs. \<forall>y \<in> set ys. x \<parallel> y)"
  by (induction xs) auto

lemma set_enqueue: "x \<in> set (enqueue p cs) \<Longrightarrow> \<exists>d. fst x = p @ [d]"
  by (auto simp: enqueue_entries entry_of_def split: option.splits)

lemma parallel_siblings: "d \<noteq> d' \<Longrightarrow> p @ [d] \<parallel> p @ [d']"
  by (induction p) (simp_all add: parallel_def)

lemma antichain_entry: "antichain (map fst (entry_of p cs d))"
  by (simp add: entry_of_def split: option.splits)

lemma set_entry: "x \<in> set (entry_of p cs d) \<Longrightarrow> fst x = p @ [d]"
  by (auto simp: entry_of_def split: option.splits)

lemma antichain_enqueue: "antichain (map fst (enqueue p cs))"
  unfolding enqueue_entries map_append antichain_append
  using parallel_siblings [of NW NE p] parallel_siblings [of NW SW p] parallel_siblings [of NW SE p]
    parallel_siblings [of NE SW p] parallel_siblings [of NE SE p] parallel_siblings [of SW SE p]
  by (auto simp: antichain_entry dest!: set_entry)

lemma parallel_extend: "q \<parallel> p \<Longrightarrow> q \<parallel> p @ [d]"
  using parallel_append [of q p "[]" "[d]"] by simp

lemma pushAll_loop_apply_all:
  "apply_all fifo w = Some r \<Longrightarrow> antichain (map fst fifo) \<Longrightarrow> pushAll_loop w fifo = (None, r)"
proof (induction w fifo rule: pushAll_loop.induct)
  case (1 whole)
  then show ?case by simp
next
  case (2 whole p elements fifo)
  from "2.prems"(2) have anti: "antichain (map fst fifo)" and par: "\<forall>x \<in> set fifo. p \<parallel> fst x"
    by simp_all
  show ?case
  proof (cases "node_at whole p")
    case None
    with "2.prems"(1) have "apply_all fifo whole = Some r"
      by (simp add: step_at_def)
    from "2.IH"(1) [OF None this anti] None show ?thesis by simp
  next
    case (Some tree)
    with "2.prems"(1) obtain t'' where t'': "push_rec tree elements = Some t''"
      and rest: "apply_all fifo (replace_at whole p t'') = Some r"
      by (cases "push_rec tree elements") (simp_all add: step_at_def)
    obtain x tree' cands where b: "forEach place elements (tree, Map.empty) = (x, tree', cands)"
      by (cases "forEach place elements (tree, Map.empty)" rule: prod_cases3) blast
    with t'' have x: "x = None" and da: "descend_all cands tree' = Some t''"
      by (cases x; simp add: push_rec_unfold)+
    let ?w = "replace_at whole p tree'"
    have px: "\<forall>x \<in> set fifo. \<forall>y \<in> set (enqueue p cands). fst x \<parallel> fst y"
    proof (intro ballI)
      fix x y
      assume "x \<in> set fifo" "y \<in> set (enqueue p cands)"
      then obtain d where "fst y = p @ [d]" "p \<parallel> fst x"
        using set_enqueue par by blast
      then show "fst x \<parallel> fst y"
        using parallel_extend [of "fst x" p d] by (simp add: parallel_commute)
    qed
    have "apply_all (fifo @ enqueue p cands) ?w
        = Option.bind (apply_all (enqueue p cands) ?w) (apply_all fifo)"
      unfolding apply_all_append by (rule apply_all_commute [OF px])
    also have "\<dots> = Some r"
      using rest da by (simp add: apply_enqueue [OF Some])
    finally have a: "apply_all (fifo @ enqueue p cands) ?w = Some r" .
    have c: "antichain (map fst (fifo @ enqueue p cands))"
      unfolding map_append antichain_append
      using anti antichain_enqueue px by auto
    from "2.IH"(2) [OF Some b [unfolded x, symmetric] refl refl a c] Some b x
    show ?thesis by simp
  qed
qed

section \<open>The operations keep the invariant\<close>

lemma pushAll_loop_well_formed:
  assumes "well_formed t"
  shows "\<exists>t'. pushAll_loop t [([], es)] = (None, t') \<and> well_formed t'
           \<and> elems t' = elems t + mset es \<and> geom t' = geom t
           \<and> maxElements (node t') = maxElements (node t)"
proof -
  from push_rec_well_formed [OF assms, of es]
  obtain t' where t': "push_rec t es = Some t'" "well_formed t'" "elems t' = elems t + mset es"
    "geom t' = geom t" "maxElements (node t') = maxElements (node t)"
    by blast
  have "apply_all [([], es)] t = Some t'"
    using t'(1) by (simp add: step_at_def)
  then have "pushAll_loop t [([], es)] = (None, t')"
    by (rule pushAll_loop_apply_all) simp
  with t' show ?thesis by blast
qed

lemma pushAll_well_formed:
  assumes "well_formed t" "validateAll items = Inr es"
  shows "\<exists>t'. pushAll t items = (None, t') \<and> well_formed t'
           \<and> elems t' = elems t + mset es \<and> geom t' = geom t
           \<and> maxElements (node t') = maxElements (node t)"
  using pushAll_loop_well_formed [OF assms(1), of es] assms(2)
  by (simp add: pushAll_def)

lemma pushAll_invalid: "validateAll items = Inl e \<Longrightarrow> pushAll t items = (Some e, t)"
  by (simp add: pushAll_def)

lemma pushAll_keeps_well_formed: "well_formed t \<Longrightarrow> well_formed (snd (pushAll t items))"
proof (cases "validateAll items")
  case (Inl e)
  assume "well_formed t"
  with Inl show ?thesis by (simp add: pushAll_invalid)
next
  case (Inr es)
  assume "well_formed t"
  from pushAll_well_formed [OF this Inr] show ?thesis by auto
qed

lemma indexOf_ge: "- 1 \<le> indexOf xs x"
  by (induction xs) (auto simp: Let_def)

lemma indexOf_mem: "indexOf xs x > - 1 \<longleftrightarrow> x \<in> set xs"
  using indexOf_ge [of _ x] by (induction xs) (auto simp: Let_def)

lemma splice1_indexOf: "x \<in> set xs \<Longrightarrow> splice1 (indexOf xs x) xs = remove1 x xs"
proof (induction xs)
  case Nil
  then show ?case by simp
next
  case (Cons y ys)
  show ?case
  proof (cases "y = x")
    case True
    then show ?thesis by (simp add: splice1_def)
  next
    case False
    with Cons.prems have m: "x \<in> set ys" by simp
    then have i: "indexOf ys x > - 1" by (simp add: indexOf_mem)
    then have "nat (indexOf ys x + 1) = Suc (nat (indexOf ys x))" by simp
    with Cons.IH [OF m] False i show ?thesis
      by (simp add: splice1_def Let_def)
  qed
qed

lemma new_QuadTree_well_formed:
  assumes "new_QuadTree opts = Inr t"
  shows "well_formed t"
proof -
  from assms obtain w h where "1 \<le> w" "1 \<le> h" "1 \<le> orElse (opt_maxElements opts) 1"
    "t = QuadTree \<lparr>tree_x = orElse (opt_x opts) 0, tree_y = orElse (opt_y opts) 0,
                    tree_width = w, tree_height = h,
                    maxElements = orElse (opt_maxElements opts) 1,
                    contents = [], oversized = [], tree_size = 0\<rparr> None None None None"
    by (rule new_QuadTree_Inr)
  then show ?thesis
    by (simp add: node_ok_def)
qed

lemma clear_well_formed:
  assumes "well_formed t"
  shows "well_formed (clear t)"
proof -
  from assms have "node_ok t"
    by (simp add: well_formed_iff [of t])
  then show ?thesis
    by (simp add: clear_def node_ok_def)
qed

declare remove.simps [simp del]

lemma node_ok_size: "node_ok t \<Longrightarrow> tree_size (node t) = int (size (elems t))"
  by (simp add: node_ok_def)

lemma well_formed_node_ok: "well_formed t \<Longrightarrow> node_ok t"
  by (simp add: well_formed_iff [of t])

lemma well_formed_child:
  "well_formed t \<Longrightarrow> child d t = Some c \<Longrightarrow> well_formed c \<and> child_ok t d c"
  by (simp add: well_formed_iff [of t])

lemma elems_cases:
  assumes "e \<in># elems t" "e \<notin> set (oversized (node t))" "e \<notin> set (contents (node t))"
  obtains d c where "child d t = Some c" "e \<in># elems c"
proof -
  from assms have "e \<in># celems (child NW t) + celems (child NE t) + celems (child SW t) + celems (child SE t)"
    unfolding elems_eq [of t] by auto
  then have "\<exists>d. e \<in># celems (child d t)"
    by auto
  then obtain d where "e \<in># celems (child d t)" ..
  then obtain c where "child d t = Some c" "e \<in># elems c"
    by (cases "child d t") (simp_all add: celems_def)
  then show ?thesis by (rule that)
qed

lemma well_formed_shrunk:
  assumes wf: "well_formed t"
    and n: "tree_x (node t') = tree_x (node t)" "tree_y (node t') = tree_y (node t)"
      "tree_width (node t') = tree_width (node t)" "tree_height (node t') = tree_height (node t)"
      "maxElements (node t') = maxElements (node t)"
      "tree_size (node t') = tree_size (node t) - 1"
    and l: "set (contents (node t')) \<subseteq> set (contents (node t))"
      "length (oversized (node t')) = length (oversized (node t))
         \<or> length (oversized (node t')) + 1 = length (oversized (node t))"
    and e: "elems t' + {#e#} = elems t"
    and c: "\<And>d c. child d t' = Some c \<Longrightarrow> well_formed c \<and> child_ok t d c"
  shows "well_formed t'"
proof -
  from wf have ok: "node_ok t" by (rule well_formed_node_ok)
  have g: "geom t' = geom t"
    using n by (simp add: geom_def)
  have "size (elems t) = Suc (size (elems t'))"
    unfolding e [symmetric] by simp
  then have s: "tree_size (node t') = int (size (elems t'))"
    using ok n(6) by (simp add: node_ok_def)
  have ne: "contents (node t') \<noteq> [] \<Longrightarrow> contents (node t) \<noteq> []"
    using l(1) by auto
  have "node_ok t'"
    unfolding node_ok_def using ok l s ne n
    by (auto simp: node_ok_def fitting_geom [OF g])
  moreover have "child_ok t' d c = child_ok t d c" for d c
    by (rule child_ok_geom [OF g n(5)])
  ultimately show ?thesis
    unfolding well_formed_iff [of t'] using c by simp
qed

lemma remove_spec:
  "validateElement item = Inr e \<Longrightarrow> well_formed t \<Longrightarrow>
    (e \<in># elems t \<longrightarrow>
       (\<exists>t'. remove item t = (Inr True, t') \<and> well_formed t' \<and> elems t' + {#e#} = elems t
          \<and> geom t' = geom t \<and> maxElements (node t') = maxElements (node t)))
    \<and> (e \<notin># elems t \<longrightarrow> remove item t = (Inr False, t))"
proof (induction item t rule: remove.induct)
  case (1 item' this)
  note wf = "1.prems"(2)
  note v = "1.prems"(1)
  let ?d = "calculateDirection e this"
  show ?case
  proof (cases "e \<in> set (oversized (node this))")
    case True
    let ?t' = "map_node (\<lambda>n. n\<lparr>oversized := splice1 (indexOf (oversized n) e) (oversized n),
                                  tree_size := tree_size n - 1\<rparr>) this"
    have r: "remove item' this = (Inr True, ?t')"
      using True v by (simp add: remove.simps [of item' this] indexOf_mem)
    have n: "node ?t' = (node this)\<lparr>oversized := remove1 e (oversized (node this)),
                                      tree_size := tree_size (node this) - 1\<rparr>"
      using True by (simp add: node_map_node splice1_indexOf)
    have "mset (remove1 e (oversized (node this))) + {#e#} = mset (oversized (node this))"
      using True by simp
    then have el: "elems ?t' + {#e#} = elems this"
      using elems_map_node [of "\<lambda>n. n\<lparr>oversized := splice1 (indexOf (oversized n) e) (oversized n),
                                  tree_size := tree_size n - 1\<rparr>" this "{#e#}" "{#}"] True
      by (simp add: splice1_indexOf)
    have "well_formed ?t'"
    proof (rule well_formed_shrunk [OF wf _ _ _ _ _ _ _ _ el])
      show "length (oversized (node ?t')) = length (oversized (node this))
         \<or> length (oversized (node ?t')) + 1 = length (oversized (node this))"
        using True by (simp add: n length_remove1) (cases "oversized (node this)"; simp)
      fix d c
      assume "child d ?t' = Some c"
      then show "well_formed c \<and> child_ok this d c"
        using well_formed_child [OF wf, of d c] by (simp add: child_map_node)
    qed (simp_all add: n)
    moreover have "e \<in># elems this"
      using True by (simp add: elems_eq [of this])
    ultimately show ?thesis
      using r el by (simp add: geom_def n)
  next
    case False
    note nov = False
    show ?thesis
    proof (cases "e \<in> set (contents (node this))")
      case True
      let ?t' = "map_node (\<lambda>n. n\<lparr>contents := splice1 (indexOf (contents n) e) (contents n),
                                  tree_size := tree_size n - 1\<rparr>) this"
      have r: "remove item' this = (Inr True, ?t')"
        using True nov v by (simp add: remove.simps [of item' this] indexOf_mem)
      have n: "node ?t' = (node this)\<lparr>contents := remove1 e (contents (node this)),
                                      tree_size := tree_size (node this) - 1\<rparr>"
        using True by (simp add: node_map_node splice1_indexOf)
      have "mset (remove1 e (contents (node this))) + {#e#} = mset (contents (node this))"
        using True by simp
      then have el: "elems ?t' + {#e#} = elems this"
        using elems_map_node [of "\<lambda>n. n\<lparr>contents := splice1 (indexOf (contents n) e) (contents n),
                                  tree_size := tree_size n - 1\<rparr>" this "{#e#}" "{#}"] True
        by (simp add: splice1_indexOf)
      have "well_formed ?t'"
      proof (rule well_formed_shrunk [OF wf _ _ _ _ _ _ _ _ el])
        show "set (contents (node ?t')) \<subseteq> set (contents (node this))"
          by (simp add: n set_remove1_subset)
        fix d c
        assume "child d ?t' = Some c"
        then show "well_formed c \<and> child_ok this d c"
          using well_formed_child [OF wf, of d c] by (simp add: child_map_node)
      qed (simp_all add: n)
      moreover have "e \<in># elems this"
        using True by (simp add: elems_eq [of this])
      ultimately show ?thesis
        using r el by (simp add: geom_def n)
    next
      case False
      note nct = False
      show ?thesis
      proof (cases "child ?d this")
        case None
        have "e \<notin># elems this"
        proof
          assume "e \<in># elems this"
          from elems_cases [OF this nov nct] obtain d c where dc: "child d this = Some c" "e \<in># elems c"
            by blast
          with well_formed_child [OF wf dc(1)] have "?d = d"
            by (simp add: child_ok_def)
          with dc(1) None show False by simp
        qed
        moreover have "remove item' this = (Inr False, this)"
          using None nov nct v by (simp add: remove.simps [of item' this] indexOf_mem)
        ultimately show ?thesis by simp
      next
        case (Some rc)
        from well_formed_child [OF wf Some] have wrc: "well_formed rc" and okrc: "child_ok this ?d rc"
          by simp_all
        have i1: "\<not> - 1 < indexOf (oversized (node this)) e" "\<not> - 1 < indexOf (contents (node this)) e"
          using nov nct by (simp_all add: indexOf_mem)
        note IH = "1.IH" [OF v i1 Some v wrc]
        show ?thesis
        proof (cases "e \<in># elems rc")
          case False
          with IH have rr: "remove item' rc = (Inr False, rc)" by simp
          have "e \<notin># elems this"
          proof
            assume "e \<in># elems this"
            from elems_cases [OF this nov nct] obtain d c where dc: "child d this = Some c" "e \<in># elems c"
              by blast
            with well_formed_child [OF wf dc(1)] have "?d = d"
              by (simp add: child_ok_def)
            with dc Some False show False by simp
          qed
          moreover have "remove item' this = (Inr False, this)"
            using Some nov nct v rr
            by (simp add: remove.simps [of item' this] indexOf_mem set_child_same)
          ultimately show ?thesis by simp
        next
          case True
          with IH obtain rc' where rr: "remove item' rc = (Inr True, rc')" and wrc': "well_formed rc'"
            and erc': "elems rc' + {#e#} = elems rc" and grc': "geom rc' = geom rc"
            and mrc': "maxElements (node rc') = maxElements (node rc)"
            by blast
          let ?slot = "if tree_size (node rc') = 0 then None else Some rc'"
          let ?t' = "set_child ?d ?slot (map_node (\<lambda>n. n\<lparr>tree_size := tree_size n - 1\<rparr>) this)"
          have r: "remove item' this = (Inr True, ?t')"
            using Some nov nct v rr by (simp add: remove.simps [of item' this] indexOf_mem)
          have n: "node ?t' = (node this)\<lparr>tree_size := tree_size (node this) - 1\<rparr>"
            by (simp add: node_set_child node_map_node)
          have ch: "child d ?t' = (if d = ?d then ?slot else child d this)" for d
            by (simp add: child_set_child child_map_node)
          have empty: "elems rc' = {#}" if "tree_size (node rc') = 0"
            using node_ok_size [OF well_formed_node_ok [OF wrc']] that by simp
          have slot: "celems ?slot = elems rc'"
            using empty by (simp add: celems_def)
          have em: "elems (map_node (\<lambda>n. n\<lparr>tree_size := tree_size n - 1\<rparr>) this) = elems this"
            using elems_map_node [of "\<lambda>n. n\<lparr>tree_size := tree_size n - 1\<rparr>" this "{#}" "{#}"] by simp
          have el: "elems ?t' + {#e#} = elems this"
          proof -
            have "elems ?t' + elems rc = elems this + elems rc'"
              using elems_set_child [of ?d ?slot "map_node (\<lambda>n. n\<lparr>tree_size := tree_size n - 1\<rparr>) this"]
                Some slot em by (simp add: child_map_node celems_def)
            then have "elems ?t' + {#e#} + elems rc' = elems this + elems rc'"
              unfolding erc' [symmetric] by (simp add: ac_simps)
            then show ?thesis by simp
          qed
          have "well_formed ?t'"
          proof (rule well_formed_shrunk [OF wf _ _ _ _ _ _ _ _ el])
            fix d c
            assume dc: "child d ?t' = Some c"
            show "well_formed c \<and> child_ok this d c"
            proof (cases "d = ?d")
              case True
              with dc ch [of d] have c: "c = rc'"
                by (simp split: if_splits)
              have "child_ok this ?d rc'"
              proof (rule child_ok_replace [OF okrc grc' mrc'])
                from okrc have "\<forall>x \<in># elems rc. calculateDirection x this = ?d"
                  by (simp add: child_ok_def)
                then show "\<forall>x \<in># elems rc'. calculateDirection x this = ?d"
                  unfolding erc' [symmetric] by simp
              qed
              with wrc' c True show ?thesis by simp
            next
              case False
              with dc ch [of d] have "child d this = Some c" by simp
              from well_formed_child [OF wf this] show ?thesis .
            qed
          qed (simp_all add: n)
          moreover have "e \<in># elems this"
            using celems_child [OF Some] True by (rule mset_subset_eqD)
          ultimately show ?thesis
            using r el by (simp add: geom_def n)
        qed
      qed
    qed
  qed
qed

lemma remove_invalid: "validateElement item = Inl e \<Longrightarrow> remove item t = (Inl e, t)"
  by (simp add: remove.simps [of item t])

lemma remove_keeps_well_formed:
  assumes "well_formed t"
  shows "well_formed (snd (remove item t))"
proof (cases "validateElement item")
  case (Inl e)
  with assms show ?thesis by (simp add: remove_invalid)
next
  case (Inr e)
  from remove_spec [OF Inr assms] assms show ?thesis
    by (cases "e \<in># elems t") auto
qed

section \<open>The reachable trees\<close>

inductive reachable :: "QuadTree \<Rightarrow> bool" where
  constructed: "new_QuadTree opts = Inr t \<Longrightarrow> reachable t"
| pushed: "reachable t \<Longrightarrow> reachable (snd (push t item))"
| pushedAll: "reachable t \<Longrightarrow> reachable (snd (pushAll t items))"
| removed: "reachable t \<Longrightarrow> reachable (snd (remove item t))"
| cleared: "reachable t \<Longrightarrow> reachable (clear t)"

lemma reachable_well_formed: "reachable t \<Longrightarrow> well_formed t"
proof (induction rule: reachable.induct)
  case (constructed opts t)
  then show ?case by (rule new_QuadTree_well_formed)
next
  case (pushed t item)
  from pushed.IH show ?case unfolding push_def by (rule pushAll_keeps_well_formed)
next
  case (pushedAll t items)
  from pushedAll.IH show ?case by (rule pushAll_keeps_well_formed)
next
  case (removed t item)
  from removed.IH show ?case by (rule remove_keeps_well_formed)
next
  case (cleared t)
  from cleared.IH show ?case by (rule clear_well_formed)
qed

section \<open>The nodes of a tree\<close>

fun subtrees :: "QuadTree \<Rightarrow> QuadTree list" where
  "subtrees (QuadTree n nw ne sw se) =
     QuadTree n nw ne sw se
       # (case nw of None \<Rightarrow> [] | Some c \<Rightarrow> subtrees c)
       @ (case ne of None \<Rightarrow> [] | Some c \<Rightarrow> subtrees c)
       @ (case sw of None \<Rightarrow> [] | Some c \<Rightarrow> subtrees c)
       @ (case se of None \<Rightarrow> [] | Some c \<Rightarrow> subtrees c)"

lemma subtrees_self: "t \<in> set (subtrees t)"
  by (cases t) simp

lemma well_formed_subtrees: "well_formed t \<Longrightarrow> n \<in> set (subtrees t) \<Longrightarrow> well_formed n"
  by (induction t rule: subtrees.induct) (auto split: option.splits)

lemma node_ok_contents:
  assumes "node_ok t"
  shows "int (length (contents (node t))) \<le> maxElements (node t)"
proof (cases "contents (node t) = []")
  case True
  with assms show ?thesis by (simp add: node_ok_def)
next
  case False
  have "size (elems t) \<ge> length (oversized (node t)) + length (contents (node t))"
    unfolding elems_eq [of t] by simp
  with assms False show ?thesis
    by (simp add: node_ok_def)
qed

section \<open>The traversals enumerate the elements\<close>

lemma sum_elems_liveChildren:
  "sum_list (map elems (liveChildren directions t))
     = celems (child NW t) + celems (child NE t) + celems (child SW t) + celems (child SE t)"
  by (simp add: liveChildren_def directions_def List.map_filter_def celems_def split: option.splits)

lemma mset_each_loop: "mset (each_loop fifo) = sum_list (map elems fifo)"
proof (induction fifo rule: each_loop.induct)
  case 1
  show ?case by simp
next
  case (2 topNode fifo)
  then show ?case
    by (simp add: sum_elems_liveChildren elems_eq [of topNode] ac_simps)
qed

lemma mset_each: "mset (each t) = elems t"
  unfolding each_def mset_each_loop by simp

lemma find_loop_filter: "find_loop p fifo = filter p (each_loop fifo)"
  by (induction p fifo rule: find_loop.induct) simp_all

lemma find_elements_filter: "find_elements t p = filter p (each t)"
  by (simp add: find_elements_def each_def find_loop_filter)

lemma filter_eq_single:
  assumes "count (mset xs) e = 1"
  shows "filter (\<lambda>i. i = e) xs = [e]"
proof -
  have "mset (filter (\<lambda>i. i = e) xs) = {#e#}"
    using assms by (auto simp: multiset_eq_iff)
  then show ?thesis
    by (metis mset_single_iff_right)
qed

lemma filter_eq_none:
  assumes "e \<notin> set xs"
  shows "filter (\<lambda>i. i = e) xs = []"
  using assms by (induction xs) auto

section \<open>The clone holds the elements that are kept\<close>

definition cloneSlot :: "(Element \<Rightarrow> bool) option \<Rightarrow> QuadTree option \<Rightarrow> error + QuadTree option" where
  "cloneSlot predicate c = (case c of None \<Rightarrow> Inr None | Some t \<Rightarrow> deepclone predicate t)"

definition node_options :: "QuadTree \<Rightarrow> QuadTreeUserOptions" where
  "node_options t =
     \<lparr>opt_width = Some (tree_width (node t)), opt_height = Some (tree_height (node t)),
      opt_x = Some (tree_x (node t)), opt_y = Some (tree_y (node t)),
      opt_maxElements = Some (maxElements (node t))\<rparr>"

lemma deepclone_unfold:
  "deepclone predicate t =
     (case new_QuadTree (node_options t) of
        Inl e \<Rightarrow> Inl e
      | Inr copycat \<Rightarrow>
     (case cloneSlot predicate (child NW t) of
        Inl e \<Rightarrow> Inl e
      | Inr cnw \<Rightarrow>
     (case cloneSlot predicate (child NE t) of
        Inl e \<Rightarrow> Inl e
      | Inr cne \<Rightarrow>
     (case cloneSlot predicate (child SW t) of
        Inl e \<Rightarrow> Inl e
      | Inr csw \<Rightarrow>
     (case cloneSlot predicate (child SE t) of
        Inl e \<Rightarrow> Inl e
      | Inr cse \<Rightarrow>
          (let kept_oversized = filter (keeps predicate) (oversized (node t));
               kept_contents = filter (keeps predicate) (contents (node t));
               size = sizeOrZero cnw + sizeOrZero cne + sizeOrZero csw + sizeOrZero cse
                      + int (length kept_oversized) + int (length kept_contents)
           in if size = 0 then Inr None
              else Inr (Some (QuadTree ((node copycat)\<lparr>oversized := kept_oversized,
                                                         contents := kept_contents,
                                                         tree_size := size\<rparr>)
                                       cnw cne csw cse))))))))"
proof (cases t)
  case (QuadTree n nw ne sw se)
  show ?thesis
    unfolding QuadTree
    by (simp add: cloneSlot_def node_options_def child.simps cong: sum.case_cong)
qed

lemma new_QuadTree_node_options:
  assumes "node_ok t"
  shows "new_QuadTree (node_options t)
     = Inr (QuadTree \<lparr>tree_x = tree_x (node t), tree_y = tree_y (node t),
                      tree_width = tree_width (node t), tree_height = tree_height (node t),
                      maxElements = maxElements (node t),
                      contents = [], oversized = [], tree_size = 0\<rparr> None None None None)"
  using assms
  by (simp add: new_QuadTree_def node_options_def node_ok_def orElse_def isInteger_def)

definition clone_of :: "(Element \<Rightarrow> bool) option \<Rightarrow> Element multiset \<Rightarrow> QuadTree option \<Rightarrow> bool" where
  "clone_of predicate m r =
     (celems r = filter_mset (keeps predicate) m \<and> sizeOrZero r = int (size (celems r))
      \<and> (r = None \<longleftrightarrow> filter_mset (keeps predicate) m = {#}))"

lemma size_filter_mset_list: "size (filter_mset P (mset xs)) = length (filter P xs)"
  by (metis mset_filter size_mset)

lemma deepclone_spec:
  "well_formed t \<Longrightarrow> \<exists>r. deepclone predicate t = Inr r \<and> clone_of predicate (elems t) r"
proof (induction "nodeCount t" arbitrary: t rule: less_induct)
  case less
  note wf = less.prems
  have slot: "\<exists>r. cloneSlot predicate (child d t) = Inr r \<and> clone_of predicate (celems (child d t)) r" for d
  proof (cases "child d t")
    case None
    then show ?thesis
      by (simp add: cloneSlot_def clone_of_def celems_def sizeOrZero_def)
  next
    case (Some c)
    from well_formed_child [OF wf Some] have "well_formed c" by simp
    from less.hyps [OF nodeCount_child [OF Some] this] Some show ?thesis
      by (simp add: cloneSlot_def celems_def)
  qed
  from slot [of NW] obtain cnw where nw: "cloneSlot predicate (child NW t) = Inr cnw"
    "clone_of predicate (celems (child NW t)) cnw" by blast
  from slot [of NE] obtain cne where ne: "cloneSlot predicate (child NE t) = Inr cne"
    "clone_of predicate (celems (child NE t)) cne" by blast
  from slot [of SW] obtain csw where sw: "cloneSlot predicate (child SW t) = Inr csw"
    "clone_of predicate (celems (child SW t)) csw" by blast
  from slot [of SE] obtain cse where se: "cloneSlot predicate (child SE t) = Inr cse"
    "clone_of predicate (celems (child SE t)) cse" by blast
  let ?ov = "filter (keeps predicate) (oversized (node t))"
  let ?ct = "filter (keeps predicate) (contents (node t))"
  let ?size = "sizeOrZero cnw + sizeOrZero cne + sizeOrZero csw + sizeOrZero cse
                 + int (length ?ov) + int (length ?ct)"
  let ?kept = "mset ?ov + mset ?ct + celems cnw + celems cne + celems csw + celems cse"
  have k: "celems cnw = filter_mset (keeps predicate) (celems (child NW t))"
    "celems cne = filter_mset (keeps predicate) (celems (child NE t))"
    "celems csw = filter_mset (keeps predicate) (celems (child SW t))"
    "celems cse = filter_mset (keeps predicate) (celems (child SE t))"
    using nw(2) ne(2) sw(2) se(2) by (simp_all add: clone_of_def)
  have z: "sizeOrZero cnw = int (size (celems cnw))" "sizeOrZero cne = int (size (celems cne))"
    "sizeOrZero csw = int (size (celems csw))" "sizeOrZero cse = int (size (celems cse))"
    using nw(2) ne(2) sw(2) se(2) by (simp_all add: clone_of_def)
  have kept: "filter_mset (keeps predicate) (elems t) = ?kept"
    unfolding elems_eq [of t] k by simp
  have size: "?size = int (size ?kept)"
    unfolding z by (simp add: size_filter_mset_list)
  note new = new_QuadTree_node_options [OF well_formed_node_ok [OF wf]]
  show ?case
  proof (cases "?size = 0")
    case True
    then have "int (size ?kept) = 0"
      unfolding size .
    then have "size ?kept = 0"
      by (simp only: of_nat_eq_0_iff)
    then have "?kept = {#}"
      by (simp only: size_eq_0_iff_empty)
    moreover have "deepclone predicate t = Inr None"
      using True nw(1) ne(1) sw(1) se(1) new by (simp add: deepclone_unfold [of predicate t] Let_def)
    ultimately show ?thesis
      unfolding kept [symmetric] by (simp add: clone_of_def celems_def sizeOrZero_def)
  next
    case False
    let ?t' = "QuadTree \<lparr>tree_x = tree_x (node t), tree_y = tree_y (node t),
                      tree_width = tree_width (node t), tree_height = tree_height (node t),
                      maxElements = maxElements (node t),
                      contents = ?ct, oversized = ?ov, tree_size = ?size\<rparr> cnw cne csw cse"
    have d: "deepclone predicate t = Inr (Some ?t')"
      using False nw(1) ne(1) sw(1) se(1) new by (simp add: deepclone_unfold [of predicate t] Let_def)
    have e: "elems ?t' = ?kept"
      by (simp add: celems_def)
    have "?kept \<noteq> {#}"
    proof
      assume "?kept = {#}"
      then have "int (size ?kept) = 0"
        by (simp only: size_empty of_nat_0)
      with False show False
        unfolding size by simp
    qed
    with d e size show ?thesis
      unfolding kept [symmetric] by (simp add: clone_of_def celems_def sizeOrZero_def)
  qed
qed

lemma length_filter_each:
  "length (filter P (each t)) = size (filter_mset P (elems t))"
proof -
  have "size (filter_mset P (mset (each t))) = length (filter P (each t))"
    by (metis mset_filter size_mset)
  then show ?thesis by (simp add: mset_each)
qed

lemma filter_each_Nil:
  "filter P (each t) = [] \<longleftrightarrow> filter_mset P (elems t) = {#}"
  using length_filter_each [of P t] by (metis length_0_conv size_eq_0_iff_empty list.size(3))

section \<open>Notions of the specification\<close>

text \<open>The union of the extents of the four quadrants of a node.\<close>

definition quadrants_union :: "QuadTree \<Rightarrow> (int \<times> int) set" where
  "quadrants_union t = extent (splitTree t NW) \<union> extent (splitTree t NE)
                       \<union> extent (splitTree t SW) \<union> extent (splitTree t SE)"

text \<open>
  An item beyond an edge of a node. The tests on the right and on the bottom are the two
  conditions of the special case of \<open>colliding\<close>; those on the left and on the top say
  that the item ends before the node begins.
\<close>

definition beyond_right :: "'a ElementRect_scheme \<Rightarrow> QuadTree \<Rightarrow> bool" where
  "beyond_right item t = (rect_x item \<ge> tree_x (node t) + tree_width (node t))"

definition beyond_bottom :: "'a ElementRect_scheme \<Rightarrow> QuadTree \<Rightarrow> bool" where
  "beyond_bottom item t = (rect_y item \<ge> tree_y (node t) + tree_height (node t))"

definition beyond_left :: "'a ElementRect_scheme \<Rightarrow> QuadTree \<Rightarrow> bool" where
  "beyond_left item t = (rect_x item + widthOr1 item \<le> tree_x (node t))"

definition beyond_top :: "'a ElementRect_scheme \<Rightarrow> QuadTree \<Rightarrow> bool" where
  "beyond_top item t = (rect_y item + heightOr1 item \<le> tree_y (node t))"

text \<open>An item that \<open>validateElement\<close> refuses.\<close>

definition invalid_item :: "Item \<Rightarrow> bool" where
  "invalid_item item = isl (validateElement item)"

text \<open>
  What \<open>colliding\<close> and \<open>onCollision\<close> take from one visited node: the elements of its
  \<open>oversized\<close>, then of its \<open>contents\<close>, other than the item and colliding with it.
\<close>

definition collected :: "Element \<Rightarrow> (Element \<Rightarrow> Element \<Rightarrow> bool) \<Rightarrow> QuadTree \<Rightarrow> Element list" where
  "collected item collisionFunction topNode =
     filter (\<lambda>elt. elt \<noteq> item \<and> collisionFunction item elt) (oversized (node topNode))
       @ filter (\<lambda>elt. elt \<noteq> item \<and> collisionFunction item elt) (contents (node topNode))"

section \<open>Concrete inputs\<close>

definition degenerate_rect :: ElementRect where
  "degenerate_rect = \<lparr>rect_x = 5, rect_y = 5, rect_width = Some 0, rect_height = Some 0\<rparr>"

definition big_rect :: ElementRect where
  "big_rect = \<lparr>rect_x = 0, rect_y = 0, rect_width = Some 10, rect_height = Some 10\<rparr>"

definition rect_a :: ElementRect where
  "rect_a = \<lparr>rect_x = 10, rect_y = 10, rect_width = Some 100, rect_height = Some 100\<rparr>"

definition rect_touching :: ElementRect where
  "rect_touching = \<lparr>rect_x = 110, rect_y = 10, rect_width = Some 100, rect_height = Some 100\<rparr>"

definition rect_overlapping :: ElementRect where
  "rect_overlapping = \<lparr>rect_x = 109, rect_y = 10, rect_width = Some 100, rect_height = Some 100\<rparr>"

definition unit_tree :: QuadTree where
  "unit_tree = QuadTree \<lparr>tree_x = 0, tree_y = 0, tree_width = 1, tree_height = 1,
                          maxElements = 1, contents = [], oversized = [], tree_size = 0\<rparr>
                        None None None None"

definition odd_tree :: QuadTree where
  "odd_tree = QuadTree \<lparr>tree_x = 0, tree_y = 0, tree_width = 5, tree_height = 3,
                         maxElements = 1, contents = [], oversized = [], tree_size = 0\<rparr>
                       None None None None"

definition square_tree :: QuadTree where
  "square_tree = QuadTree \<lparr>tree_x = 0, tree_y = 0, tree_width = 100, tree_height = 100,
                            maxElements = 2, contents = [], oversized = [], tree_size = 0\<rparr>
                          None None None None"

definition zero_maxElements_options :: QuadTreeUserOptions where
  "zero_maxElements_options =
     \<lparr>opt_width = Some 10, opt_height = Some 10, opt_x = None, opt_y = None, opt_maxElements = Some 0\<rparr>"

definition valid_item_a :: Item where
  "valid_item_a = Object (Some 10) (Some 10) (Some 1) (Some 1) 1"

definition negative_item :: Item where
  "negative_item = Object (Some 10) (Some 10) (Some (- 1)) None 2"

definition square_options :: QuadTreeUserOptions where
  "square_options =
     \<lparr>opt_width = Some 100, opt_height = Some 100, opt_x = Some 0, opt_y = Some 0, opt_maxElements = Some 2\<rparr>"

definition item_a :: Item where "item_a = Object (Some 10) (Some 10) (Some 1) (Some 1) 1"

definition item_b :: Item where "item_b = Object (Some 60) (Some 10) (Some 1) (Some 1) 2"

definition item_c :: Item where "item_c = Object (Some 10) (Some 60) (Some 1) (Some 1) 3"

definition item_d :: Item where "item_d = Object (Some 20) (Some 20) (Some 1) (Some 1) 4"

definition element_a :: Element where
  "element_a = \<lparr>rect_x = 10, rect_y = 10, rect_width = Some 1, rect_height = Some 1, ident = 1\<rparr>"

definition element_b :: Element where
  "element_b = \<lparr>rect_x = 60, rect_y = 10, rect_width = Some 1, rect_height = Some 1, ident = 2\<rparr>"

definition element_d :: Element where
  "element_d = \<lparr>rect_x = 20, rect_y = 20, rect_width = Some 1, rect_height = Some 1, ident = 4\<rparr>"

definition split_tree :: QuadTree where
  "split_tree = snd (pushAll square_tree [item_a, item_b, item_c])"

definition thinned_tree :: QuadTree where
  "thinned_tree = snd (remove item_b (snd (remove item_a split_tree)))"

definition reverted_tree :: QuadTree where
  "reverted_tree = snd (push thinned_tree item_d)"

definition twice_tree :: QuadTree where
  "twice_tree = snd (push (snd (push square_tree item_a)) item_a)"

definition element_c :: Element where
  "element_c = \<lparr>rect_x = 10, rect_y = 60, rect_width = Some 1, rect_height = Some 1, ident = 3\<rparr>"

definition full_tree :: QuadTree where
  "full_tree = snd (pushAll square_tree [item_a, item_b])"

definition no_match :: "Element \<Rightarrow> bool" where
  "no_match i = (1000 < rect_x i)"

definition west :: "Element \<Rightarrow> bool" where
  "west i = (rect_x i < 50)"

definition every :: "Element \<Rightarrow> bool" where
  "every i = True"

text \<open>
  Queries around the node of 100 by 100 at the origin: on the left and below it, on the
  left, on the right and above it, on the right and below it, and inside it; and a
  collision function that accepts every pair.
\<close>

definition item_left_below :: Item where
  "item_left_below = Object (Some (- 20)) (Some 150) (Some 5) (Some 5) 9"

definition element_left_below :: Element where
  "element_left_below = \<lparr>rect_x = - 20, rect_y = 150, rect_width = Some 5, rect_height = Some 5, ident = 9\<rparr>"

definition item_left :: Item where
  "item_left = Object (Some (- 20)) (Some 10) (Some 5) (Some 5) 10"

definition element_left :: Element where
  "element_left = \<lparr>rect_x = - 20, rect_y = 10, rect_width = Some 5, rect_height = Some 5, ident = 10\<rparr>"

definition item_right_above :: Item where
  "item_right_above = Object (Some 150) (Some (- 20)) (Some 5) (Some 5) 11"

definition element_right_above :: Element where
  "element_right_above = \<lparr>rect_x = 150, rect_y = - 20, rect_width = Some 5, rect_height = Some 5, ident = 11\<rparr>"

definition item_inside :: Item where
  "item_inside = Object (Some 12) (Some 12) (Some 5) (Some 5) 12"

definition element_inside :: Element where
  "element_inside = \<lparr>rect_x = 12, rect_y = 12, rect_width = Some 5, rect_height = Some 5, ident = 12\<rparr>"

definition item_corner :: Item where
  "item_corner = Object (Some 150) (Some 150) (Some 5) (Some 5) 13"

definition element_corner :: Element where
  "element_corner = \<lparr>rect_x = 150, rect_y = 150, rect_width = Some 5, rect_height = Some 5, ident = 13\<rparr>"

definition anything :: "Element \<Rightarrow> Element \<Rightarrow> bool" where
  "anything a b = True"

section \<open>Facts used by the claims\<close>

lemma extents_overlap_iff:
  assumes "0 < widthOr1 a" "0 < heightOr1 a" "0 < widthOr1 b" "0 < heightOr1 b"
  shows "extents_overlap a b \<longleftrightarrow>
     (rect_x a < rect_x b + widthOr1 b \<and> rect_x b < rect_x a + widthOr1 a
      \<and> rect_y a < rect_y b + heightOr1 b \<and> rect_y b < rect_y a + heightOr1 a)"
proof
  assume "extents_overlap a b"
  then obtain p where "p \<in> extent a" "p \<in> extent b"
    unfolding extents_overlap_def by blast
  then show "rect_x a < rect_x b + widthOr1 b \<and> rect_x b < rect_x a + widthOr1 a
      \<and> rect_y a < rect_y b + heightOr1 b \<and> rect_y b < rect_y a + heightOr1 a"
    unfolding extent_def by auto
next
  assume h: "rect_x a < rect_x b + widthOr1 b \<and> rect_x b < rect_x a + widthOr1 a
      \<and> rect_y a < rect_y b + heightOr1 b \<and> rect_y b < rect_y a + heightOr1 a"
  let ?p = "(max (rect_x a) (rect_x b), max (rect_y a) (rect_y b))"
  have "?p \<in> extent a" "?p \<in> extent b"
    using h assms unfolding extent_def by auto
  then show "extents_overlap a b"
    unfolding extents_overlap_def by blast
qed

lemma extent_treeRect:
  "extent (treeRect t) = {p. tree_x (node t) \<le> fst p \<and> fst p < tree_x (node t) + tree_width (node t)
                          \<and> tree_y (node t) \<le> snd p \<and> snd p < tree_y (node t) + tree_height (node t)}"
  by (simp add: extent_def treeRect_def widthOr1_def heightOr1_def)

lemma extent_splitTree:
  "extent (splitTree t d) = {p. rect_x (splitTree t d) \<le> fst p
      \<and> fst p < rect_x (splitTree t d) + widthOr1 (splitTree t d)
      \<and> rect_y (splitTree t d) \<le> snd p
      \<and> snd p < rect_y (splitTree t d) + heightOr1 (splitTree t d)}"
  by (simp add: extent_def)

lemma quadrants_disjoint:
  assumes "1 \<le> tree_width (node t)" "1 \<le> tree_height (node t)" "d \<noteq> d'"
  shows "extent (splitTree t d) \<inter> extent (splitTree t d') = {}"
proof -
  have l: "max (floorHalf (tree_width (node t))) 1 \<ge> 1" "max (floorHalf (tree_height (node t))) 1 \<ge> 1"
    by simp_all
  show ?thesis
    using assms(3) by (cases d; cases d') (auto simp: extent_splitTree splitTree_simps)
qed

lemma quadrants_cover:
  assumes "1 \<le> tree_width (node t)" "1 \<le> tree_height (node t)"
  shows "extent (treeRect t) \<subseteq> quadrants_union t"
proof -
  have w: "tree_width (node t) \<le> max (floorHalf (tree_width (node t))) 1 + ceilHalf (tree_width (node t))"
    using halves_sum [of "tree_width (node t)"] by simp
  have h: "tree_height (node t) \<le> max (floorHalf (tree_height (node t))) 1 + ceilHalf (tree_height (node t))"
    using halves_sum [of "tree_height (node t)"] by simp
  show ?thesis
    unfolding quadrants_union_def extent_treeRect extent_splitTree splitTree_simps
    using w h by auto
qed

lemma quadrants_exact:
  assumes "2 \<le> tree_width (node t)" "2 \<le> tree_height (node t)"
  shows "quadrants_union t = extent (treeRect t)"
proof -
  have w: "max (floorHalf (tree_width (node t))) 1 + ceilHalf (tree_width (node t)) = tree_width (node t)"
    "0 < ceilHalf (tree_width (node t))"
    using halves_sum [of "tree_width (node t)"] floorHalf_pos [OF assms(1)] ceilHalf_pos [of "tree_width (node t)"] assms(1)
    by simp_all
  have h: "max (floorHalf (tree_height (node t))) 1 + ceilHalf (tree_height (node t)) = tree_height (node t)"
    "0 < ceilHalf (tree_height (node t))"
    using halves_sum [of "tree_height (node t)"] floorHalf_pos [OF assms(2)] ceilHalf_pos [of "tree_height (node t)"] assms(2)
    by simp_all
  have "quadrants_union t \<subseteq> extent (treeRect t)"
    unfolding quadrants_union_def extent_treeRect extent_splitTree splitTree_simps
    using w h by auto
  moreover have "extent (treeRect t) \<subseteq> quadrants_union t"
    using assms by (intro quadrants_cover) simp_all
  ultimately show ?thesis by blast
qed

lemma fitting_Nil_iff: "fitting item t = [] \<longleftrightarrow> (\<forall>d. \<not> boundingBoxCollision item (splitTree t d))"
  by (simp add: fitting_def filter_empty_conv set_directions)

lemma fitting_beyond_left:
  assumes "beyond_left item t"
  shows "fitting item t = []"
  unfolding fitting_Nil_iff
proof
  fix d
  from assms show "\<not> boundingBoxCollision item (splitTree t d)"
    unfolding beyond_left_def boundingBoxCollision_def
    by (cases d) (auto simp: splitTree_simps max_def)
qed

lemma fitting_beyond_top:
  assumes "beyond_top item t"
  shows "fitting item t = []"
  unfolding fitting_Nil_iff
proof
  fix d
  from assms show "\<not> boundingBoxCollision item (splitTree t d)"
    unfolding beyond_top_def boundingBoxCollision_def
    by (cases d) (auto simp: splitTree_simps max_def)
qed

lemma collisionFits_fallback_cases:
  assumes "fitting item t = []"
  shows "collisionFits item t =
           (if beyond_right item t \<and> beyond_bottom item t then [SE]
            else if beyond_right item t then [NE, SE]
            else if beyond_bottom item t then [SW, SE]
            else [])"
  using assms by (simp add: collisionFits_def beyond_right_def beyond_bottom_def Let_def)

lemma new_QuadTree_maxElements:
  assumes "opt_width opts = Some w" "opt_height opts = Some h" "1 \<le> w" "1 \<le> h"
  shows "new_QuadTree opts = Inl InvalidMaxElements \<longleftrightarrow> (\<exists>m. opt_maxElements opts = Some m \<and> m < 0)"
    and "opt_maxElements opts = None \<Longrightarrow> \<exists>t. new_QuadTree opts = Inr t \<and> maxElements (node t) = 1"
  using assms
  by (auto simp: new_QuadTree_def Let_def orElse_def isInteger_def split: option.splits)

lemma validateAll_first_invalid:
  assumes "i < length items" "validateElement (items ! i) = Inl e"
    "\<forall>j<i. \<not> invalid_item (items ! j)"
  shows "validateAll items = Inl e"
  using assms
proof (induction items arbitrary: i)
  case Nil
  then show ?case by simp
next
  case (Cons item items)
  show ?case
  proof (cases i)
    case 0
    with Cons.prems show ?thesis by simp
  next
    case (Suc k)
    with Cons.prems have "\<not> invalid_item item" by auto
    then obtain v where v: "validateElement item = Inr v"
      by (cases "validateElement item") (simp_all add: invalid_item_def)
    have "validateAll items = Inl e"
    proof (rule Cons.IH [of k])
      show "k < length items" using Cons.prems(1) Suc by simp
      show "validateElement (items ! k) = Inl e" using Cons.prems(2) Suc by simp
      show "\<forall>j<k. \<not> invalid_item (items ! j)"
        using Cons.prems(3) Suc by auto
    qed
    with v show ?thesis by simp
  qed
qed

lemma first_invalid_exists:
  assumes "\<exists>item \<in> set items. invalid_item item"
  shows "\<exists>i<length items. invalid_item (items ! i) \<and> (\<forall>j<i. \<not> invalid_item (items ! j))"
proof -
  from assms obtain k where k: "k < length items" "invalid_item (items ! k)"
    by (auto simp: in_set_conv_nth)
  define i where "i = (LEAST n. n < length items \<and> invalid_item (items ! n))"
  have "i < length items \<and> invalid_item (items ! i)"
    unfolding i_def using k by (rule_tac LeastI [of _ k]) simp
  moreover have "\<not> invalid_item (items ! j)" if "j < i" for j
    using that not_less_Least [of j "\<lambda>n. n < length items \<and> invalid_item (items ! n)"] calculation
    unfolding i_def by auto
  ultimately show ?thesis by blast
qed

lemma reachable_square_tree: "reachable square_tree"
proof (rule reachable.constructed)
  show "new_QuadTree square_options = Inr square_tree"
    by (simp add: new_QuadTree_def square_options_def square_tree_def orElse_def isInteger_def)
qed

lemma reachable_examples:
  "reachable split_tree" "reachable thinned_tree" "reachable reverted_tree" "reachable twice_tree"
  unfolding split_tree_def thinned_tree_def reverted_tree_def twice_tree_def
  by (intro reachable.pushed reachable.pushedAll reachable.removed reachable_square_tree)+

lemma get_node: "get d t = Inr t' \<Longrightarrow> node t' = node t"
  by (auto simp: get_def node_set_child split: option.splits sum.splits)

lemma addCandidate_node: "addCandidate d e (t, cs) = (r, t', cs') \<Longrightarrow> node t' = node t"
  by (auto simp: addCandidate_def get_node split: option.splits sum.splits)

lemma flushOne_node: "flushOne e (t, cs) = (r, t', cs') \<Longrightarrow> node t' = node t"
  by (auto simp: flushOne_def addCandidate_node split: list.splits)

lemma flush_node:
  assumes "forEach flushOne xs (t, cs) = (r, t', cs')"
  shows "node t' = node t"
proof -
  have "node (fst (t', cs')) = node t"
  proof (rule forEach_invariant [where I = "\<lambda>s. node (fst s) = node t", OF _ _ assms])
    show "node (fst (t, cs)) = node t" by simp
  next
    fix x s r s'
    assume "node (fst s) = node t" "flushOne x s = (r, s')"
    then show "node (fst s') = node t"
      using flushOne_node [of x "fst s" "snd s" r "fst s'" "snd s'"] by simp
  qed
  then show ?thesis by simp
qed

lemma place_node:
  assumes "place e (t, cs) = (None, t', cs')" "length (fitting e t) = 1"
    "tree_width (node t) \<noteq> 1" "tree_height (node t) \<noteq> 1"
    "maxElements (node t) < tree_size (node t) + 1 - int (length (oversized (node t)))"
  shows "node t' = (node t)\<lparr>tree_size := tree_size (node t) + 1, contents := []\<rparr>"
proof -
  let ?t1 = "map_node (\<lambda>n. n\<lparr>tree_size := tree_size n + 1\<rparr>) t"
  have g: "geom ?t1 = geom t"
    by (simp add: geom_def node_map_node)
  have f: "length (fitting e ?t1) = 1"
    using assms(2) by (simp add: fitting_geom [OF g])
  obtain r2 t2 c2 where a: "addCandidate (fitting e ?t1 ! 0) e (?t1, cs) = (r2, t2, c2)"
    by (cases "addCandidate (fitting e ?t1 ! 0) e (?t1, cs)" rule: prod_cases3) blast
  obtain r3 t3 c3 where fl: "forEach flushOne (contents (node ?t1)) (t2, c2) = (r3, t3, c3)"
    by (cases "forEach flushOne (contents (node ?t1)) (t2, c2)" rule: prod_cases3) blast
  from assms(1) f assms(3-5) a fl have "t' = map_node (\<lambda>n. n\<lparr>contents := []\<rparr>) t3"
    by (cases r2; cases r3) (simp_all add: place_def Let_def node_map_node)
  moreover have "node t3 = node ?t1"
    using flush_node [OF fl] addCandidate_node [OF a] by simp
  ultimately show ?thesis
    by (simp add: node_map_node)
qed

lemma descend_node: "descend cs d t = Some t' \<Longrightarrow> node t' = node t"
  by (auto simp: descend_def node_set_child split: option.splits)

lemma descend_all_node:
  assumes "descend_all cs t = Some t'"
  shows "node t' = node t"
proof -
  from assms obtain t1 t2 t3 where "descend cs NW t = Some t1" "descend cs NE t1 = Some t2"
    "descend cs SW t2 = Some t3" "descend cs SE t3 = Some t'"
    by (auto simp: descend_all_def split: Option.bind_splits)
  then show ?thesis
    using descend_node by metis
qed

lemma pushAll_loop_push_rec:
  assumes "well_formed t"
  shows "\<exists>t'. push_rec t es = Some t' \<and> pushAll_loop t [([], es)] = (None, t') \<and> well_formed t'
           \<and> elems t' = elems t + mset es \<and> geom t' = geom t"
proof -
  from push_rec_well_formed [OF assms, of es]
  obtain t' where t': "push_rec t es = Some t'" "well_formed t'" "elems t' = elems t + mset es"
    "geom t' = geom t"
    by blast
  have "apply_all [([], es)] t = Some t'"
    using t'(1) by (simp add: step_at_def)
  then have "pushAll_loop t [([], es)] = (None, t')"
    by (rule pushAll_loop_apply_all) simp
  with t' show ?thesis by blast
qed

lemma filter_mset_all: "\<forall>x \<in># M. P x \<Longrightarrow> filter_mset P M = M"
  by (induction M) auto

lemma filter_mset_none: "\<forall>x \<in># M. \<not> P x \<Longrightarrow> filter_mset P M = {#}"
  by (induction M) auto

lemma celems_direction:
  assumes "well_formed t"
  shows "filter_mset (\<lambda>x. calculateDirection x t = d) (celems (child d' t))
           = (if d' = d then celems (child d t) else {#})"
proof (cases "child d' t")
  case None
  then show ?thesis by (auto simp: celems_def)
next
  case (Some c)
  with assms have "child_ok t d' c" by (simp add: well_formed_child)
  then have a: "\<forall>x \<in># elems c. calculateDirection x t = d'"
    by (simp add: child_ok_def)
  show ?thesis
  proof (cases "d' = d")
    case True
    with a Some show ?thesis by (simp add: celems_def filter_mset_all)
  next
    case False
    with a have "\<forall>x \<in># elems c. \<not> calculateDirection x t = d" by auto
    with False Some show ?thesis by (simp add: celems_def filter_mset_none)
  qed
qed

lemma children_direction:
  assumes "well_formed t"
  shows "filter_mset (\<lambda>x. calculateDirection x t = d)
           (celems (child NW t) + celems (child NE t) + celems (child SW t) + celems (child SE t))
         = celems (child d t)"
  by (cases d) (simp_all add: celems_direction [OF assms])

lemma push_flush:
  assumes wf: "well_formed t" and v: "validateElement i = Inr e"
    and f: "length (fitting e t) = 1"
    and w: "tree_width (node t) \<noteq> 1" and h: "tree_height (node t) \<noteq> 1"
    and full: "maxElements (node t) < tree_size (node t) + 1 - int (length (oversized (node t)))"
  shows "\<exists>t'. push t i = (None, t')
           \<and> contents (node t') = [] \<and> oversized (node t') = oversized (node t)
           \<and> tree_size (node t') = tree_size (node t) + 1
           \<and> celems (child NW t') + celems (child NE t') + celems (child SW t') + celems (child SE t')
               = celems (child NW t) + celems (child NE t) + celems (child SW t) + celems (child SE t)
                 + mset (contents (node t)) + {#e#}
           \<and> (\<forall>d. celems (child d t')
                 = celems (child d t) + {#x \<in># mset (contents (node t)) + {#e#}. fitting x t = [d]#})"
proof -
  from pushAll_loop_push_rec [OF wf, of "[e]"]
  obtain t' where t': "push_rec t [e] = Some t'" "pushAll_loop t [([], [e])] = (None, t')"
    "well_formed t'" "elems t' = elems t + {#e#}" "geom t' = geom t"
    by auto
  from wf have "mid t Map.empty" by (simp add: mid_empty)
  from place_mid [OF this, of e]
  obtain t0 cs where p: "place e (t, Map.empty) = (None, t0, cs)"
    by blast
  have n0: "node t0 = (node t)\<lparr>tree_size := tree_size (node t) + 1, contents := []\<rparr>"
    using place_node [OF p f w h full] .
  from t'(1) p have "descend_all cs t0 = Some t'"
    by (simp add: push_rec_unfold)
  then have n': "node t' = (node t)\<lparr>tree_size := tree_size (node t) + 1, contents := []\<rparr>"
    using descend_all_node n0 by simp
  have push: "push t i = (None, t')"
    using t'(2) v by (simp add: push_def pushAll_def)
  let ?C = "\<lambda>t. celems (child NW t) + celems (child NE t) + celems (child SW t) + celems (child SE t)"
  have total: "?C t' = ?C t + mset (contents (node t)) + {#e#}"
    using t'(4) unfolding elems_eq [of t'] elems_eq [of t] n' by (simp add: ac_simps)
  have dims: "2 \<le> tree_width (node t)" "2 \<le> tree_height (node t)"
    using well_formed_node_ok [OF wf] w h by (simp_all add: node_ok_def)
  have one: "length (fitting x t) = 1" if "x \<in># mset (contents (node t)) + {#e#}" for x
    using that f well_formed_node_ok [OF wf] by (auto simp: node_ok_def)
  have dir: "fitting x t = [d] \<longleftrightarrow> calculateDirection x t = d"
    if "x \<in># mset (contents (node t)) + {#e#}" for x d
  proof -
    from one [OF that] obtain d' where d': "fitting x t = [d']"
      by (cases "fitting x t") simp_all
    from fitting_single_direction [OF d' dims] d' show ?thesis by auto
  qed
  have each_d: "celems (child d t')
      = celems (child d t) + {#x \<in># mset (contents (node t)) + {#e#}. fitting x t = [d]#}" for d
  proof -
    have cd: "calculateDirection x t' = calculateDirection x t" for x :: Element
      by (rule calculateDirection_geom [OF t'(5)])
    have "celems (child d t') = filter_mset (\<lambda>x. calculateDirection x t = d) (?C t')"
      using children_direction [OF t'(3), of d] by (simp add: cd)
    also have "\<dots> = filter_mset (\<lambda>x. calculateDirection x t = d) (?C t)
        + filter_mset (\<lambda>x. calculateDirection x t = d) (mset (contents (node t)) + {#e#})"
      unfolding total by (simp add: add.assoc)
    also have "filter_mset (\<lambda>x. calculateDirection x t = d) (?C t) = celems (child d t)"
      by (rule children_direction [OF wf])
    also have "filter_mset (\<lambda>x. calculateDirection x t = d) (mset (contents (node t)) + {#e#})
        = {#x \<in># mset (contents (node t)) + {#e#}. fitting x t = [d]#}"
      by (rule filter_mset_cong) (simp_all add: dir)
    finally show ?thesis .
  qed
  from push n' total each_d show ?thesis
    by simp
qed


lemma node_internal:
  assumes "well_formed n"
    "maxElements (node n) < tree_size (node n) - int (length (oversized (node n)))"
  shows "contents (node n) = []"
    and "int (size (celems (child NW n) + celems (child NE n) + celems (child SW n) + celems (child SE n)))
           = tree_size (node n) - int (length (oversized (node n)))"
proof -
  from assms(1) have ok: "node_ok n" by (rule well_formed_node_ok)
  with assms(2) show c: "contents (node n) = []"
    by (auto simp: node_ok_def)
  from ok have "tree_size (node n) = int (size (elems n))"
    by (rule node_ok_size)
  then show "int (size (celems (child NW n) + celems (child NE n) + celems (child SW n) + celems (child SE n)))
           = tree_size (node n) - int (length (oversized (node n)))"
    unfolding elems_eq [of n] c by simp
qed

lemma validateElement_nonneg:
  assumes "validateElement i = Inr item"
  shows "0 \<le> widthOr1 item" "0 \<le> heightOr1 item"
  using assms
  by (auto simp: validateElement_def widthOr1_def heightOr1_def orElse_def
      split: Item.splits option.splits if_splits)

lemma liveChildren_Nil: "liveChildren [] t = []"
  by (simp add: liveChildren_def List.map_filter_def)

lemma colliding_loop_step:
  "colliding_loop item f (topNode # fifo) =
     collected item f topNode @ colliding_loop item f (fifo @ liveChildren (collisionFits item topNode) topNode)"
  by (simp add: collected_def)

lemma beyond_left_not_right:
  assumes "beyond_left item t" "0 \<le> widthOr1 item" "1 \<le> tree_width (node t)"
  shows "\<not> beyond_right item t"
  using assms by (simp add: beyond_left_def beyond_right_def)

lemma beyond_top_not_bottom:
  assumes "beyond_top item t" "0 \<le> heightOr1 item" "1 \<le> tree_height (node t)"
  shows "\<not> beyond_bottom item t"
  using assms by (simp add: beyond_top_def beyond_bottom_def)

lemma subtree_dims:
  assumes "reachable t" "n \<in> set (subtrees t)"
  shows "1 \<le> tree_width (node n)" "1 \<le> tree_height (node n)"
proof -
  from assms have "well_formed n"
    using reachable_well_formed well_formed_subtrees by blast
  then have "node_ok n" by (rule well_formed_node_ok)
  then show "1 \<le> tree_width (node n)" "1 \<le> tree_height (node n)"
    by (simp_all add: node_ok_def)
qed

lemma filter_tree_spec:
  assumes "reachable t"
  shows "\<exists>r. filter_tree t predicate = Inr r
           \<and> (case r of
                 None \<Rightarrow> filter (keeps predicate) (each t) = []
               | Some t' \<Rightarrow> filter (keeps predicate) (each t) \<noteq> []
                    \<and> length (each t') = length (filter (keeps predicate) (each t))
                    \<and> mset (each t') = mset (filter (keeps predicate) (each t)))"
proof -
  from assms have "well_formed t" by (rule reachable_well_formed)
  from deepclone_spec [OF this, of predicate]
  obtain r where r: "deepclone predicate t = Inr r" "clone_of predicate (elems t) r"
    by blast
  show ?thesis
  proof (cases r)
    case None
    with r(2) have "filter_mset (keeps predicate) (elems t) = {#}"
      by (simp add: clone_of_def)
    then have "filter (keeps predicate) (each t) = []"
      by (simp add: filter_each_Nil)
    with r(1) None show ?thesis
      by (simp add: filter_tree_def)
  next
    case (Some t')
    with r(2) have e: "elems t' = filter_mset (keeps predicate) (elems t)"
      and n: "filter_mset (keeps predicate) (elems t) \<noteq> {#}"
      by (simp_all add: clone_of_def celems_def)
    from n have "filter (keeps predicate) (each t) \<noteq> []"
      by (simp add: filter_each_Nil)
    moreover have m: "mset (each t') = mset (filter (keeps predicate) (each t))"
      by (simp add: mset_each e)
    moreover from m have "length (each t') = length (filter (keeps predicate) (each t))"
      by (rule mset_eq_length)
    ultimately show ?thesis
      using r(1) Some by (simp add: filter_tree_def)
  qed
qed

section \<open>The claims\<close>

subsection \<open>C1: the default collision predicate\<close>

text \<open>
  C1, as stated, fails: \<open>boundingBoxCollision\<close> is not true exactly when the half-open
  extents overlap. A rectangle of width and height 0 has an empty extent, and still
  collides with a rectangle that holds its origin strictly inside.
\<close>

theorem boundingBoxCollision_degenerate_counterexample:
  "boundingBoxCollision degenerate_rect big_rect \<and> \<not> extents_overlap degenerate_rect big_rect"
  by (auto simp add: boundingBoxCollision_def extents_overlap_def extent_def degenerate_rect_def
      big_rect_def widthOr1_def heightOr1_def)

text \<open>
  C1, amended: \<open>boundingBoxCollision a b\<close> is false whenever \<open>a\<close> and \<open>b\<close> touch at an
  edge; it is true exactly when the four strict inequalities hold (\<open>a\<close> starts before \<open>b\<close>
  ends and \<open>b\<close> starts before \<open>a\<close> ends, on both axes, with width and height defaulting
  to 1); and when both rectangles have a positive width and height this is exactly an
  overlap of their half-open extents.
\<close>

theorem boundingBoxCollision_half_open:
  "(touch_at_edge a b \<longrightarrow> \<not> boundingBoxCollision a b)
   \<and> (boundingBoxCollision a b \<longleftrightarrow>
        (rect_x a < rect_x b + widthOr1 b \<and> rect_x b < rect_x a + widthOr1 a
         \<and> rect_y a < rect_y b + heightOr1 b \<and> rect_y b < rect_y a + heightOr1 a))
   \<and> (0 < widthOr1 a \<and> 0 < heightOr1 a \<and> 0 < widthOr1 b \<and> 0 < heightOr1 b
        \<longrightarrow> boundingBoxCollision a b = extents_overlap a b)"
proof (intro conjI impI)
  show "\<not> boundingBoxCollision a b" if "touch_at_edge a b"
    using that unfolding touch_at_edge_def boundingBoxCollision_def by auto
  show "boundingBoxCollision a b \<longleftrightarrow>
        (rect_x a < rect_x b + widthOr1 b \<and> rect_x b < rect_x a + widthOr1 a
         \<and> rect_y a < rect_y b + heightOr1 b \<and> rect_y b < rect_y a + heightOr1 a)"
    unfolding boundingBoxCollision_def by auto
  show "boundingBoxCollision a b = extents_overlap a b"
    if "0 < widthOr1 a \<and> 0 < heightOr1 a \<and> 0 < widthOr1 b \<and> 0 < heightOr1 b"
    using that extents_overlap_iff [of a b] unfolding boundingBoxCollision_def by auto
qed

text \<open>
  Witness of C1: the rectangles of the specification. \<open>rect_touching\<close> starts where
  \<open>rect_a\<close> ends and does not collide with it; \<open>rect_overlapping\<close> starts one unit before
  and collides, and the extents overlap.
\<close>

theorem boundingBoxCollision_half_open_witness:
  "touch_at_edge rect_a rect_touching \<and> \<not> boundingBoxCollision rect_a rect_touching
   \<and> 0 < widthOr1 rect_a \<and> 0 < heightOr1 rect_a
   \<and> 0 < widthOr1 rect_overlapping \<and> 0 < heightOr1 rect_overlapping
   \<and> boundingBoxCollision rect_a rect_overlapping \<and> extents_overlap rect_a rect_overlapping"
proof -
  have t: "touch_at_edge rect_a rect_touching"
    by (simp add: touch_at_edge_def rect_a_def rect_touching_def widthOr1_def heightOr1_def)
  have p: "0 < widthOr1 rect_a \<and> 0 < heightOr1 rect_a
      \<and> 0 < widthOr1 rect_overlapping \<and> 0 < heightOr1 rect_overlapping"
    by (simp add: rect_a_def rect_overlapping_def widthOr1_def heightOr1_def)
  have c: "boundingBoxCollision rect_a rect_overlapping"
    by (simp add: boundingBoxCollision_def rect_a_def rect_overlapping_def widthOr1_def heightOr1_def)
  from t have "\<not> boundingBoxCollision rect_a rect_touching"
    using boundingBoxCollision_half_open [of rect_a rect_touching] by blast
  moreover from p c have "extents_overlap rect_a rect_overlapping"
    using boundingBoxCollision_half_open [of rect_a rect_overlapping] by blast
  ultimately show ?thesis
    using t p c by blast
qed

subsection \<open>C3: the tiling of the quadrants\<close>

text \<open>
  C3, as stated, fails on a node of width 1 (or height 1): the left child keeps width
  \<open>max (floor (1 / 2)) 1 = 1\<close> and the right child has width \<open>ceil (1 / 2) = 1\<close>, so the
  quadrants of a 1 by 1 node cover the cell \<open>(1, 0)\<close>, which is outside the node.
\<close>

theorem splitTree_unit_counterexample:
  "quadrants_union unit_tree \<noteq> extent (treeRect unit_tree)"
proof -
  have "(1, 0) \<in> extent (splitTree unit_tree NE)"
    by (simp add: extent_splitTree splitTree_simps unit_tree_def floorHalf_def ceilHalf_def)
  moreover have "(1, 0) \<notin> extent (treeRect unit_tree)"
    by (simp add: extent_treeRect unit_tree_def)
  ultimately show ?thesis
    unfolding quadrants_union_def by blast
qed

text \<open>
  C3, amended: for a node of width \<open>w \<ge> 1\<close> and height \<open>h \<ge> 1\<close>, the left children have
  width \<open>max (floor (w / 2)) 1\<close> and the right children \<open>ceil (w / 2)\<close> (the same for the
  heights of the top and bottom children), every dimension of a child is at least 1, no
  two quadrants overlap and together they cover the rectangle of the node; when
  \<open>w \<ge> 2\<close> and \<open>h \<ge> 2\<close> they cover exactly the rectangle of the node, so they partition it.
\<close>

theorem splitTree_tiling:
  assumes "1 \<le> tree_width (node t)" and "1 \<le> tree_height (node t)"
  shows "widthOr1 (splitTree t NW) = max \<lfloor>real_of_int (tree_width (node t)) / 2\<rfloor> 1
       \<and> widthOr1 (splitTree t SW) = max \<lfloor>real_of_int (tree_width (node t)) / 2\<rfloor> 1
       \<and> widthOr1 (splitTree t NE) = \<lceil>real_of_int (tree_width (node t)) / 2\<rceil>
       \<and> widthOr1 (splitTree t SE) = \<lceil>real_of_int (tree_width (node t)) / 2\<rceil>
       \<and> heightOr1 (splitTree t NW) = max \<lfloor>real_of_int (tree_height (node t)) / 2\<rfloor> 1
       \<and> heightOr1 (splitTree t NE) = max \<lfloor>real_of_int (tree_height (node t)) / 2\<rfloor> 1
       \<and> heightOr1 (splitTree t SW) = \<lceil>real_of_int (tree_height (node t)) / 2\<rceil>
       \<and> heightOr1 (splitTree t SE) = \<lceil>real_of_int (tree_height (node t)) / 2\<rceil>
       \<and> (\<forall>d. 1 \<le> widthOr1 (splitTree t d) \<and> 1 \<le> heightOr1 (splitTree t d))
       \<and> (\<forall>d d'. d \<noteq> d' \<longrightarrow> extent (splitTree t d) \<inter> extent (splitTree t d') = {})
       \<and> extent (treeRect t) \<subseteq> quadrants_union t
       \<and> (2 \<le> tree_width (node t) \<and> 2 \<le> tree_height (node t)
            \<longrightarrow> quadrants_union t = extent (treeRect t))"
proof -
  have dims: "1 \<le> widthOr1 (splitTree t d) \<and> 1 \<le> heightOr1 (splitTree t d)" for d
    using ceilHalf_pos [OF assms(1)] ceilHalf_pos [OF assms(2)]
    by (cases d) (simp_all add: splitTree_simps)
  show ?thesis
    using dims quadrants_disjoint [OF assms] quadrants_cover [OF assms] quadrants_exact [of t]
    by (simp add: splitTree_simps floorHalf_real ceilHalf_real)
qed

text \<open>
  Witness of C3: a node of width 5 and height 3. The widths are 2 and 3, the heights 1
  and 2, and the quadrants partition the node.
\<close>

theorem splitTree_tiling_witness:
  "1 \<le> tree_width (node odd_tree) \<and> 1 \<le> tree_height (node odd_tree)
   \<and> widthOr1 (splitTree odd_tree NW) = 2 \<and> widthOr1 (splitTree odd_tree NE) = 3
   \<and> heightOr1 (splitTree odd_tree NW) = 1 \<and> heightOr1 (splitTree odd_tree SW) = 2
   \<and> extent (splitTree odd_tree NW) \<inter> extent (splitTree odd_tree NE) = {}
   \<and> quadrants_union odd_tree = extent (treeRect odd_tree)"
proof -
  have w: "1 \<le> tree_width (node odd_tree)" and h: "1 \<le> tree_height (node odd_tree)"
    and w2: "2 \<le> tree_width (node odd_tree)" and h2: "2 \<le> tree_height (node odd_tree)"
    by (simp_all add: odd_tree_def)
  note th = splitTree_tiling [OF w h]
  have "extent (splitTree odd_tree NW) \<inter> extent (splitTree odd_tree NE) = {}"
    using th by blast
  moreover have "quadrants_union odd_tree = extent (treeRect odd_tree)"
    using th w2 h2 by blast
  moreover have "widthOr1 (splitTree odd_tree NW) = 2" "widthOr1 (splitTree odd_tree NE) = 3"
    "heightOr1 (splitTree odd_tree NW) = 1" "heightOr1 (splitTree odd_tree SW) = 2"
    by (simp_all add: splitTree_simps odd_tree_def floorHalf_def ceilHalf_def)
  ultimately show ?thesis
    using w h by blast
qed

subsection \<open>C5: a batch is validated before the tree is touched\<close>

text \<open>
  C5: if an item of the batch is invalid, \<open>pushAll\<close> raises the error of the first invalid
  item of the batch, and the tree after the call is the tree before it: no element of
  the batch is inserted.
\<close>

theorem pushAll_all_or_nothing:
  assumes "\<exists>item \<in> set items. invalid_item item"
  shows "\<exists>i e. i < length items \<and> validateElement (items ! i) = Inl e
           \<and> (\<forall>j<i. \<not> invalid_item (items ! j))
           \<and> pushAll this items = (Some e, this)"
proof -
  from first_invalid_exists [OF assms] obtain i where i: "i < length items"
    "invalid_item (items ! i)" "\<forall>j<i. \<not> invalid_item (items ! j)"
    by blast
  then obtain e where e: "validateElement (items ! i) = Inl e"
    by (cases "validateElement (items ! i)") (simp_all add: invalid_item_def)
  have "validateAll items = Inl e"
    using i(1) e i(3) by (rule validateAll_first_invalid)
  then have "pushAll this items = (Some e, this)"
    by (simp add: pushAll_def)
  with i e show ?thesis by blast
qed

text \<open>
  Witness of C5: a batch of a valid item, an item of negative width and a value that is
  not an object. The call raises the error of the second item and leaves the tree as it
  was.
\<close>

theorem pushAll_all_or_nothing_witness:
  "invalid_item negative_item
   \<and> pushAll square_tree [valid_item_a, negative_item, NotObject] = (Some InvalidExtent, square_tree)"
proof -
  have v: "validateElement negative_item = Inl InvalidExtent" "\<not> invalid_item valid_item_a"
    "invalid_item negative_item"
    by (simp_all add: invalid_item_def validateElement_def negative_item_def valid_item_a_def orElse_def)
  have "\<exists>item \<in> set [valid_item_a, negative_item, NotObject]. invalid_item item"
    using v by simp
  from pushAll_all_or_nothing [OF this, of square_tree]
  obtain i e where i: "i < length [valid_item_a, negative_item, NotObject]"
    "validateElement ([valid_item_a, negative_item, NotObject] ! i) = Inl e"
    "\<forall>j<i. \<not> invalid_item ([valid_item_a, negative_item, NotObject] ! j)"
    "pushAll square_tree [valid_item_a, negative_item, NotObject] = (Some e, square_tree)"
    by blast
  have "i = 1"
  proof -
    have "i \<noteq> 0"
    proof
      assume "i = 0"
      with i(2) have "validateElement valid_item_a = Inl e" by simp
      with v(2) show False by (simp add: invalid_item_def)
    qed
    moreover have "i \<noteq> 2"
    proof
      assume "i = 2"
      with i(3) [rule_format, of "Suc 0"]
      have "\<not> invalid_item ([valid_item_a, negative_item, NotObject] ! Suc 0)" by simp
      with v(3) show False by simp
    qed
    ultimately show ?thesis using i(1) by simp
  qed
  with i(2) v(1) have "e = InvalidExtent" by simp
  with i(4) v(3) show ?thesis by simp
qed

subsection \<open>C6: the special case of the collision queries\<close>

text \<open>
  C6, as stated, fails in its last clause: an item beyond the left edge of a node can
  have children visited. The item at \<open>(-20, 150)\<close> of 5 by 5 ends before the node of 100
  by 100 begins, so \<open>fitting\<close> yields no quadrant; it is below the bottom edge, so the
  special case selects \<open>SW\<close> and \<open>SE\<close>, and the traversal visits the live \<open>SW\<close> child:
  with a collision function that accepts every pair, \<open>colliding\<close> and \<open>onCollision\<close>
  report the element held by that child, while the root holds none.
\<close>

theorem colliding_left_counterexample:
  "reachable split_tree
   \<and> validateElement item_left_below = Inr element_left_below
   \<and> beyond_left element_left_below split_tree
   \<and> fitting element_left_below split_tree = []
   \<and> collisionFits element_left_below split_tree = [SW, SE]
   \<and> liveChildren (collisionFits element_left_below split_tree) split_tree \<noteq> []
   \<and> contents (node split_tree) = [] \<and> oversized (node split_tree) = []
   \<and> colliding split_tree item_left_below anything = Inr [element_c]
   \<and> onCollision split_tree item_left_below anything = Inr [element_c]"
proof -
  have "validateElement item_left_below = Inr element_left_below
   \<and> beyond_left element_left_below split_tree
   \<and> fitting element_left_below split_tree = []
   \<and> collisionFits element_left_below split_tree = [SW, SE]
   \<and> liveChildren (collisionFits element_left_below split_tree) split_tree \<noteq> []
   \<and> contents (node split_tree) = [] \<and> oversized (node split_tree) = []
   \<and> colliding split_tree item_left_below anything = Inr [element_c]
   \<and> onCollision split_tree item_left_below anything = Inr [element_c]"
    by code_simp
  with reachable_examples(1) show ?thesis by (rule conjI)
qed

text \<open>
  C6, amended: \<open>colliding\<close> and \<open>onCollision\<close> validate the item and run the same
  traversal. At a visited node the traversal takes the colliding elements of the node
  and goes on with the live children it selects. When \<open>fitting\<close> yields quadrants these
  are selected. When it yields none, \<open>item.x >= node.x + node.width\<close> selects \<open>NE\<close> and
  \<open>item.y >= node.y + node.height\<close> selects \<open>SW\<close>; \<open>SE\<close> is added when one of the two
  holds, and \<open>SE\<close> alone is selected when both hold. Nothing looks at the left or the
  top edge: for a valid item beyond the left edge of a node of a reachable tree
  \<open>fitting\<close> yields nothing and the children selected are \<open>SW\<close> and \<open>SE\<close> when the item is
  below the bottom edge, and none otherwise; beyond the top edge they are \<open>NE\<close> and \<open>SE\<close>
  when the item is on the right of the right edge, and none otherwise. When no quadrant
  fits and neither condition holds at the root, no child is visited: the queries report
  the elements of the root alone.
\<close>

theorem colliding_fallback:
  "(validateElement i = Inr item \<longrightarrow>
      colliding t i f = Inr (colliding_loop item f [t])
      \<and> onCollision t i f = Inr (colliding_loop item f [t]))
   \<and> (fitting item topNode = [] \<longrightarrow>
        colliding_loop item f (topNode # fifo) =
          collected item f topNode
            @ colliding_loop item f
                (fifo @ liveChildren
                   (if beyond_right item topNode \<and> beyond_bottom item topNode then [SE]
                    else if beyond_right item topNode then [NE, SE]
                    else if beyond_bottom item topNode then [SW, SE]
                    else []) topNode))
   \<and> (fitting item topNode \<noteq> [] \<longrightarrow>
        colliding_loop item f (topNode # fifo) =
          collected item f topNode
            @ colliding_loop item f (fifo @ liveChildren (fitting item topNode) topNode))
   \<and> (validateElement i = Inr item \<and> reachable t \<and> topNode \<in> set (subtrees t)
        \<and> beyond_left item topNode \<longrightarrow>
        fitting item topNode = []
        \<and> colliding_loop item f (topNode # fifo) =
            collected item f topNode
              @ colliding_loop item f
                  (fifo @ liveChildren (if beyond_bottom item topNode then [SW, SE] else []) topNode))
   \<and> (validateElement i = Inr item \<and> reachable t \<and> topNode \<in> set (subtrees t)
        \<and> beyond_top item topNode \<longrightarrow>
        fitting item topNode = []
        \<and> colliding_loop item f (topNode # fifo) =
            collected item f topNode
              @ colliding_loop item f
                  (fifo @ liveChildren (if beyond_right item topNode then [NE, SE] else []) topNode))
   \<and> (validateElement i = Inr item \<and> fitting item t = []
        \<and> \<not> beyond_right item t \<and> \<not> beyond_bottom item t \<longrightarrow>
        colliding t i f = Inr (collected item f t)
        \<and> onCollision t i f = Inr (collected item f t))"
proof (intro conjI impI)
  assume "validateElement i = Inr item"
  then show "colliding t i f = Inr (colliding_loop item f [t])"
    "onCollision t i f = Inr (colliding_loop item f [t])"
    by (simp_all add: colliding_def onCollision_def)
next
  assume "fitting item topNode = []"
  then show "colliding_loop item f (topNode # fifo) =
          collected item f topNode
            @ colliding_loop item f
                (fifo @ liveChildren
                   (if beyond_right item topNode \<and> beyond_bottom item topNode then [SE]
                    else if beyond_right item topNode then [NE, SE]
                    else if beyond_bottom item topNode then [SW, SE]
                    else []) topNode)"
    unfolding colliding_loop_step by (simp only: collisionFits_fallback_cases)
next
  assume "fitting item topNode \<noteq> []"
  then have "collisionFits item topNode = fitting item topNode"
    by (simp add: collisionFits_def Let_def)
  then show "colliding_loop item f (topNode # fifo) =
          collected item f topNode
            @ colliding_loop item f (fifo @ liveChildren (fitting item topNode) topNode)"
    unfolding colliding_loop_step by simp
next
  assume a: "validateElement i = Inr item \<and> reachable t \<and> topNode \<in> set (subtrees t)
        \<and> beyond_left item topNode"
  then have f: "fitting item topNode = []"
    by (simp add: fitting_beyond_left)
  from a have "\<not> beyond_right item topNode"
    using beyond_left_not_right validateElement_nonneg(1) subtree_dims(1) by blast
  with f have "collisionFits item topNode = (if beyond_bottom item topNode then [SW, SE] else [])"
    by (simp add: collisionFits_fallback_cases)
  then show "colliding_loop item f (topNode # fifo) =
            collected item f topNode
              @ colliding_loop item f
                  (fifo @ liveChildren (if beyond_bottom item topNode then [SW, SE] else []) topNode)"
    unfolding colliding_loop_step by simp
  from f show "fitting item topNode = []" .
next
  assume a: "validateElement i = Inr item \<and> reachable t \<and> topNode \<in> set (subtrees t)
        \<and> beyond_top item topNode"
  then have f: "fitting item topNode = []"
    by (simp add: fitting_beyond_top)
  from a have "\<not> beyond_bottom item topNode"
    using beyond_top_not_bottom validateElement_nonneg(2) subtree_dims(2) by blast
  with f have "collisionFits item topNode = (if beyond_right item topNode then [NE, SE] else [])"
    by (simp add: collisionFits_fallback_cases)
  then show "colliding_loop item f (topNode # fifo) =
            collected item f topNode
              @ colliding_loop item f
                  (fifo @ liveChildren (if beyond_right item topNode then [NE, SE] else []) topNode)"
    unfolding colliding_loop_step by simp
  from f show "fitting item topNode = []" .
next
  assume a: "validateElement i = Inr item \<and> fitting item t = []
        \<and> \<not> beyond_right item t \<and> \<not> beyond_bottom item t"
  then have "collisionFits item t = []"
    by (simp add: collisionFits_fallback_cases)
  then have "colliding_loop item f [t] = collected item f t"
    unfolding colliding_loop_step by (simp add: liveChildren_Nil)
  with a show "colliding t i f = Inr (collected item f t)"
    "onCollision t i f = Inr (collected item f t)"
    by (simp_all add: colliding_def onCollision_def)
qed

text \<open>
  Witness of C6: five queries on the tree of 100 by 100 that has split, on the left and
  below it, on the right and above it, on the left, inside it, and on the right and
  below it.
\<close>

theorem colliding_fallback_witness:
  "reachable split_tree \<and> split_tree \<in> set (subtrees split_tree)
   \<and> validateElement item_left_below = Inr element_left_below
   \<and> beyond_left element_left_below split_tree \<and> beyond_bottom element_left_below split_tree
   \<and> fitting element_left_below split_tree = []
   \<and> colliding split_tree item_left_below anything
        = Inr (colliding_loop element_left_below anything [split_tree])
   \<and> colliding_loop element_left_below anything [split_tree]
        = collected element_left_below anything split_tree
            @ colliding_loop element_left_below anything (liveChildren [SW, SE] split_tree)
   \<and> validateElement item_right_above = Inr element_right_above
   \<and> beyond_top element_right_above split_tree \<and> beyond_right element_right_above split_tree
   \<and> colliding_loop element_right_above anything [split_tree]
        = collected element_right_above anything split_tree
            @ colliding_loop element_right_above anything (liveChildren [NE, SE] split_tree)
   \<and> validateElement item_left = Inr element_left
   \<and> beyond_left element_left split_tree \<and> fitting element_left split_tree = []
   \<and> \<not> beyond_right element_left split_tree \<and> \<not> beyond_bottom element_left split_tree
   \<and> colliding split_tree item_left anything = Inr (collected element_left anything split_tree)
   \<and> onCollision split_tree item_left anything = Inr (collected element_left anything split_tree)
   \<and> fitting element_inside split_tree = [NW]
   \<and> colliding_loop element_inside anything [split_tree]
        = collected element_inside anything split_tree
            @ colliding_loop element_inside anything (liveChildren [NW] split_tree)
   \<and> fitting element_corner split_tree = []
   \<and> beyond_right element_corner split_tree \<and> beyond_bottom element_corner split_tree
   \<and> colliding_loop element_corner anything [split_tree]
        = collected element_corner anything split_tree
            @ colliding_loop element_corner anything (liveChildren [SE] split_tree)"
proof -
  have r: "reachable split_tree \<and> split_tree \<in> set (subtrees split_tree)"
    using reachable_examples(1) subtrees_self by simp
  have lb: "validateElement item_left_below = Inr element_left_below
      \<and> beyond_left element_left_below split_tree \<and> beyond_bottom element_left_below split_tree
      \<and> fitting element_left_below split_tree = []"
    by code_simp
  have ra: "validateElement item_right_above = Inr element_right_above
      \<and> beyond_top element_right_above split_tree \<and> beyond_right element_right_above split_tree"
    by code_simp
  have l: "validateElement item_left = Inr element_left
      \<and> beyond_left element_left split_tree \<and> fitting element_left split_tree = []
      \<and> \<not> beyond_right element_left split_tree \<and> \<not> beyond_bottom element_left split_tree"
    by code_simp
  have i: "fitting element_inside split_tree = [NW]"
    by code_simp
  note a = colliding_fallback [where i = item_left_below and item = element_left_below
      and t = split_tree and topNode = split_tree and fifo = "[]" and f = anything]
  note b = colliding_fallback [where i = item_right_above and item = element_right_above
      and t = split_tree and topNode = split_tree and fifo = "[]" and f = anything]
  note c = colliding_fallback [where i = item_left and item = element_left
      and t = split_tree and topNode = split_tree and fifo = "[]" and f = anything]
  note d = colliding_fallback [where i = item_inside and item = element_inside
      and t = split_tree and topNode = split_tree and fifo = "[]" and f = anything]
  note e = colliding_fallback [where i = item_corner and item = element_corner
      and t = split_tree and topNode = split_tree and fifo = "[]" and f = anything]
  have k: "fitting element_corner split_tree = []
      \<and> beyond_right element_corner split_tree \<and> beyond_bottom element_corner split_tree"
    by code_simp
  have "colliding split_tree item_left_below anything
        = Inr (colliding_loop element_left_below anything [split_tree])"
    using a lb by blast
  moreover have "colliding_loop element_left_below anything [split_tree]
        = collected element_left_below anything split_tree
            @ colliding_loop element_left_below anything (liveChildren [SW, SE] split_tree)"
  proof -
    from a r lb have "colliding_loop element_left_below anything [split_tree]
        = collected element_left_below anything split_tree
            @ colliding_loop element_left_below anything
                ([] @ liveChildren (if beyond_bottom element_left_below split_tree then [SW, SE] else [])
                   split_tree)"
      by blast
    moreover from lb have "beyond_bottom element_left_below split_tree" by blast
    ultimately show ?thesis by (simp only: if_True append_Nil)
  qed
  moreover have "colliding_loop element_right_above anything [split_tree]
        = collected element_right_above anything split_tree
            @ colliding_loop element_right_above anything (liveChildren [NE, SE] split_tree)"
  proof -
    from b r ra have "colliding_loop element_right_above anything [split_tree]
        = collected element_right_above anything split_tree
            @ colliding_loop element_right_above anything
                ([] @ liveChildren (if beyond_right element_right_above split_tree then [NE, SE] else [])
                   split_tree)"
      by blast
    moreover from ra have "beyond_right element_right_above split_tree" by blast
    ultimately show ?thesis by (simp only: if_True append_Nil)
  qed
  moreover have "colliding split_tree item_left anything = Inr (collected element_left anything split_tree)
      \<and> onCollision split_tree item_left anything = Inr (collected element_left anything split_tree)"
    using c l by blast
  moreover have "colliding_loop element_inside anything [split_tree]
        = collected element_inside anything split_tree
            @ colliding_loop element_inside anything (liveChildren [NW] split_tree)"
  proof -
    from i have "fitting element_inside split_tree \<noteq> []" by simp
    with d have "colliding_loop element_inside anything [split_tree]
        = collected element_inside anything split_tree
            @ colliding_loop element_inside anything
                ([] @ liveChildren (fitting element_inside split_tree) split_tree)"
      by blast
    then show ?thesis by (simp only: i append_Nil)
  qed
  moreover have "colliding_loop element_corner anything [split_tree]
        = collected element_corner anything split_tree
            @ colliding_loop element_corner anything (liveChildren [SE] split_tree)"
  proof -
    from e k have "colliding_loop element_corner anything [split_tree]
        = collected element_corner anything split_tree
            @ colliding_loop element_corner anything
                ([] @ liveChildren
                   (if beyond_right element_corner split_tree \<and> beyond_bottom element_corner split_tree
                    then [SE]
                    else if beyond_right element_corner split_tree then [NE, SE]
                    else if beyond_bottom element_corner split_tree then [SW, SE]
                    else []) split_tree)"
      by blast
    moreover from k have "beyond_right element_corner split_tree \<and> beyond_bottom element_corner split_tree"
      by blast
    ultimately show ?thesis by (simp only: if_True append_Nil simp_thms)
  qed
  ultimately show ?thesis
    using r lb ra l i k by blast
qed

subsection \<open>C9: the check of \<open>maxElements\<close>\<close>

text \<open>
  C9 holds of every value but 0: the constructor reads \<open>maxElements || 1\<close>, which turns
  a supplied 0 into the default 1 before the check \<open>maxElements < 1\<close>, so that
  \<open>maxElements = 0\<close> builds a tree of capacity 1 and raises nothing.
\<close>

theorem new_QuadTree_zero_maxElements:
  "new_QuadTree zero_maxElements_options =
     Inr (QuadTree \<lparr>tree_x = 0, tree_y = 0, tree_width = 10, tree_height = 10,
                    maxElements = 1, contents = [], oversized = [], tree_size = 0\<rparr>
                  None None None None)"
  by (simp add: new_QuadTree_def zero_maxElements_options_def orElse_def isInteger_def)

text \<open>
  Witness of C9: at the failing input the constructor does not raise the error of
  \<open>maxElements\<close>, and the capacity of the tree it builds is 1.
\<close>

theorem new_QuadTree_zero_maxElements_witness:
  "new_QuadTree zero_maxElements_options \<noteq> Inl InvalidMaxElements
   \<and> maxElements (node (projr (new_QuadTree zero_maxElements_options))) = 1"
  using new_QuadTree_zero_maxElements by simp

subsection \<open>C2: insertion, query and removal of one element\<close>

text \<open>
  C2, as stated, fails in a tree that already holds the element: \<open>push\<close> stores the same
  object a second time, \<open>remove\<close> takes one occurrence away and returns true, and the query
  by reference still returns the element.
\<close>

theorem push_twice_counterexample:
  "reachable (snd (push square_tree item_a))
   \<and> validateElement item_a = Inr element_a
   \<and> fst (push (snd (push square_tree item_a)) item_a) = None
   \<and> twice_tree = snd (push (snd (push square_tree item_a)) item_a)
   \<and> fst (remove item_a twice_tree) = Inr True
   \<and> find_elements (snd (remove item_a twice_tree)) (\<lambda>i. i = element_a) = [element_a]"
proof -
  have "reachable (snd (push square_tree item_a))"
    by (intro reachable.pushed reachable_square_tree)
  moreover have "validateElement item_a = Inr element_a
     \<and> fst (push (snd (push square_tree item_a)) item_a) = None
     \<and> fst (remove item_a twice_tree) = Inr True
     \<and> find_elements (snd (remove item_a twice_tree)) (\<lambda>i. i = element_a) = [element_a]"
    by code_simp
  ultimately show ?thesis
    by (simp add: twice_tree_def)
qed

text \<open>
  C2, amended: in every reachable tree that does not hold the valid element \<open>e\<close>, \<open>push\<close>
  raises nothing and afterwards \<open>find (i => i === e)\<close> returns exactly \<open>e\<close>; then \<open>remove\<close>
  returns true and the same query returns nothing; a second \<open>remove\<close> returns false and
  leaves the tree as it is.
\<close>

theorem push_find_remove:
  assumes "reachable t" and "validateElement item = Inr e" and "e \<notin> set (each t)"
  shows "\<exists>t1 t2. push t item = (None, t1)
           \<and> find_elements t1 (\<lambda>i. i = e) = [e]
           \<and> remove item t1 = (Inr True, t2)
           \<and> find_elements t2 (\<lambda>i. i = e) = []
           \<and> remove item t2 = (Inr False, t2)"
proof -
  from assms(1) have wf: "well_formed t" by (rule reachable_well_formed)
  from assms(3) have fresh: "e \<notin># elems t"
    unfolding mset_each [symmetric] by simp
  have "validateAll [item] = Inr [e]"
    using assms(2) by simp
  from pushAll_well_formed [OF wf this]
  obtain t1 where t1: "push t item = (None, t1)" "well_formed t1" "elems t1 = elems t + {#e#}"
    by (auto simp: push_def)
  have c1: "count (mset (each t1)) e = 1"
    using fresh by (simp add: mset_each t1(3) not_in_iff)
  then have f1: "find_elements t1 (\<lambda>i. i = e) = [e]"
    unfolding find_elements_filter by (rule filter_eq_single)
  have "e \<in># elems t1"
    by (simp add: t1(3))
  with remove_spec [OF assms(2) t1(2)]
  obtain t2 where t2: "remove item t1 = (Inr True, t2)" "well_formed t2" "elems t2 + {#e#} = elems t1"
    by blast
  from t2(3) t1(3) have e2: "elems t2 = elems t"
    by simp
  with fresh have "e \<notin># mset (each t2)"
    by (simp add: mset_each)
  then have "e \<notin> set (each t2)"
    by simp
  then have f2: "find_elements t2 (\<lambda>i. i = e) = []"
    unfolding find_elements_filter by (rule filter_eq_none)
  have "remove item t2 = (Inr False, t2)"
    using remove_spec [OF assms(2) t2(2)] fresh e2 by simp
  with t1(1) f1 t2(1) f2 show ?thesis by blast
qed

text \<open>
  Witness of C2: a tree of three elements that has split, and a fourth element.
\<close>

theorem push_find_remove_witness:
  "reachable split_tree \<and> validateElement item_d = Inr element_d \<and> element_d \<notin> set (each split_tree)
   \<and> fst (push split_tree item_d) = None
   \<and> find_elements (snd (push split_tree item_d)) (\<lambda>i. i = element_d) = [element_d]
   \<and> fst (remove item_d (snd (push split_tree item_d))) = Inr True
   \<and> find_elements (snd (remove item_d (snd (push split_tree item_d)))) (\<lambda>i. i = element_d) = []
   \<and> fst (remove item_d (snd (remove item_d (snd (push split_tree item_d))))) = Inr False
   \<and> snd (remove item_d (snd (remove item_d (snd (push split_tree item_d)))))
       = snd (remove item_d (snd (push split_tree item_d)))"
proof -
  have v: "validateElement item_d = Inr element_d"
    by code_simp
  have n: "element_d \<notin> set (each split_tree)"
    by code_simp
  from push_find_remove [OF reachable_examples(1) v n]
  obtain t1 t2 where "push split_tree item_d = (None, t1)"
    "find_elements t1 (\<lambda>i. i = element_d) = [element_d]"
    "remove item_d t1 = (Inr True, t2)"
    "find_elements t2 (\<lambda>i. i = element_d) = []"
    "remove item_d t2 = (Inr False, t2)"
    by blast
  with reachable_examples(1) v n show ?thesis by simp
qed

subsection \<open>C4: the capacity of \<open>contents\<close>\<close>

text \<open>
  C4: in every tree reachable by construction, \<open>push\<close>, \<open>pushAll\<close>, \<open>remove\<close> and \<open>clear\<close>,
  the \<open>contents\<close> of every node holds at most \<open>maxElements\<close> elements.
\<close>

theorem contents_bounded:
  assumes "reachable t" and "n \<in> set (subtrees t)"
  shows "int (length (contents (node n))) \<le> maxElements (node n)"
proof -
  from assms(1) have "well_formed t" by (rule reachable_well_formed)
  then have "well_formed n" using assms(2) by (rule well_formed_subtrees)
  then have "node_ok n" by (rule well_formed_node_ok)
  then show ?thesis by (rule node_ok_contents)
qed

text \<open>
  Witness of C4: the root of a tree of capacity 2 after an insertion of three elements,
  two removals and one more insertion.
\<close>

theorem contents_bounded_witness:
  "reachable reverted_tree \<and> reverted_tree \<in> set (subtrees reverted_tree)
   \<and> maxElements (node reverted_tree) = 2
   \<and> int (length (contents (node reverted_tree))) \<le> 2"
proof -
  have m: "maxElements (node reverted_tree) = 2"
    by code_simp
  from contents_bounded [OF reachable_examples(3) subtrees_self [of reverted_tree]] m
  show ?thesis
    using reachable_examples(3) subtrees_self [of reverted_tree] by simp
qed

subsection \<open>C8: a node that has split\<close>

text \<open>
  C8, as stated, fails: a node that has split takes elements into \<open>contents\<close> again while
  it holds a live child. With capacity 2, three elements in three quadrants split the
  root (its size is 3); after two removals the size is 1, not 0, one child is left, and
  the next element goes to the \<open>contents\<close> of the root.
\<close>

theorem revert_counterexample:
  "reachable split_tree
   \<and> contents (node split_tree) = [] \<and> child SW split_tree \<noteq> None
   \<and> tree_size (node split_tree) = 3
   \<and> tree_size (node (snd (remove item_a split_tree))) = 2
   \<and> tree_size (node thinned_tree) = 1
   \<and> child SW thinned_tree \<noteq> None
   \<and> contents (node reverted_tree) = [element_d]
   \<and> child SW reverted_tree \<noteq> None"
proof -
  have "contents (node split_tree) = [] \<and> child SW split_tree \<noteq> None
   \<and> tree_size (node split_tree) = 3
   \<and> tree_size (node (snd (remove item_a split_tree))) = 2
   \<and> tree_size (node thinned_tree) = 1
   \<and> child SW thinned_tree \<noteq> None
   \<and> contents (node reverted_tree) = [element_d]
   \<and> child SW reverted_tree \<noteq> None"
    by code_simp
  with reachable_examples(1) show ?thesis by simp
qed

text \<open>
  C8, amended: in every reachable tree a node holds elements in \<open>contents\<close> only while
  \<open>size - oversized.length\<close> is at most \<open>maxElements\<close>; a node where it is more has empty
  \<open>contents\<close>, and its children hold the \<open>size - oversized.length\<close> elements. When an
  element that fits one quadrant is pushed at a node that can split and makes
  \<open>size - oversized.length\<close> exceed \<open>maxElements\<close>, the push succeeds, the \<open>contents\<close> of
  the node is left empty, its \<open>oversized\<close> is unchanged, and the children receive the
  elements of \<open>contents\<close> and the new element, each in the child of the quadrant it
  fits, and nothing else. Nothing keeps the node from taking elements into \<open>contents\<close>
  again once removals have brought \<open>size - oversized.length\<close> below \<open>maxElements\<close>, with
  children alive.
\<close>

theorem contents_only_under_capacity:
  "(reachable t \<and> n \<in> set (subtrees t) \<and> contents (node n) \<noteq> []
      \<longrightarrow> tree_size (node n) - int (length (oversized (node n))) \<le> maxElements (node n))
   \<and> (reachable t \<and> n \<in> set (subtrees t)
        \<and> maxElements (node n) < tree_size (node n) - int (length (oversized (node n)))
      \<longrightarrow> contents (node n) = []
          \<and> int (size (celems (child NW n) + celems (child NE n) + celems (child SW n) + celems (child SE n)))
              = tree_size (node n) - int (length (oversized (node n))))
   \<and> (reachable t \<and> n \<in> set (subtrees t) \<and> validateElement i = Inr e
        \<and> length (fitting e n) = 1 \<and> tree_width (node n) \<noteq> 1 \<and> tree_height (node n) \<noteq> 1
        \<and> maxElements (node n) < tree_size (node n) + 1 - int (length (oversized (node n)))
      \<longrightarrow> (\<exists>n'. push n i = (None, n')
             \<and> contents (node n') = [] \<and> oversized (node n') = oversized (node n)
             \<and> tree_size (node n') = tree_size (node n) + 1
             \<and> celems (child NW n') + celems (child NE n') + celems (child SW n') + celems (child SE n')
                 = celems (child NW n) + celems (child NE n) + celems (child SW n) + celems (child SE n)
                   + mset (contents (node n)) + {#e#}
             \<and> (\<forall>d. celems (child d n')
                   = celems (child d n) + {#x \<in># mset (contents (node n)) + {#e#}. fitting x n = [d]#})))"
proof (intro conjI impI)
  assume a: "reachable t \<and> n \<in> set (subtrees t) \<and> contents (node n) \<noteq> []"
  then have "well_formed n"
    using reachable_well_formed well_formed_subtrees by blast
  then have "node_ok n" by (rule well_formed_node_ok)
  with a show "tree_size (node n) - int (length (oversized (node n))) \<le> maxElements (node n)"
    by (simp add: node_ok_def)
next
  assume a: "reachable t \<and> n \<in> set (subtrees t)
        \<and> maxElements (node n) < tree_size (node n) - int (length (oversized (node n)))"
  then have wf: "well_formed n"
    using reachable_well_formed well_formed_subtrees by blast
  from a have m: "maxElements (node n) < tree_size (node n) - int (length (oversized (node n)))"
    by simp
  show "contents (node n) = []"
    by (rule node_internal(1) [OF wf m])
  show "int (size (celems (child NW n) + celems (child NE n) + celems (child SW n) + celems (child SE n)))
              = tree_size (node n) - int (length (oversized (node n)))"
    by (rule node_internal(2) [OF wf m])
next
  assume a: "reachable t \<and> n \<in> set (subtrees t) \<and> validateElement i = Inr e
        \<and> length (fitting e n) = 1 \<and> tree_width (node n) \<noteq> 1 \<and> tree_height (node n) \<noteq> 1
        \<and> maxElements (node n) < tree_size (node n) + 1 - int (length (oversized (node n)))"
  then have wf: "well_formed n"
    using reachable_well_formed well_formed_subtrees by blast
  from a show "\<exists>n'. push n i = (None, n')
             \<and> contents (node n') = [] \<and> oversized (node n') = oversized (node n)
             \<and> tree_size (node n') = tree_size (node n) + 1
             \<and> celems (child NW n') + celems (child NE n') + celems (child SW n') + celems (child SE n')
                 = celems (child NW n) + celems (child NE n) + celems (child SW n) + celems (child SE n)
                   + mset (contents (node n)) + {#e#}
             \<and> (\<forall>d. celems (child d n')
                   = celems (child d n) + {#x \<in># mset (contents (node n)) + {#e#}. fitting x n = [d]#})"
    by (intro push_flush [OF wf]) simp_all
qed

text \<open>
  Witness of C8: the root of the tree of the counterexample, which holds one element in
  \<open>contents\<close> under its capacity of 2; the root that has split, whose children hold its
  three elements; and a root of capacity 2 that holds two elements when a third is
  pushed: its \<open>contents\<close> is left empty and the three elements are in three children.
\<close>

theorem contents_only_under_capacity_witness:
  "reachable reverted_tree \<and> reverted_tree \<in> set (subtrees reverted_tree)
   \<and> contents (node reverted_tree) \<noteq> []
   \<and> tree_size (node reverted_tree) - int (length (oversized (node reverted_tree)))
        \<le> maxElements (node reverted_tree)
   \<and> reachable split_tree \<and> split_tree \<in> set (subtrees split_tree)
   \<and> maxElements (node split_tree) < tree_size (node split_tree) - int (length (oversized (node split_tree)))
   \<and> contents (node split_tree) = []
   \<and> int (size (celems (child NW split_tree) + celems (child NE split_tree)
                 + celems (child SW split_tree) + celems (child SE split_tree))) = 3
   \<and> reachable full_tree \<and> full_tree \<in> set (subtrees full_tree)
   \<and> validateElement item_c = Inr element_c
   \<and> length (fitting element_c full_tree) = 1
   \<and> tree_width (node full_tree) \<noteq> 1 \<and> tree_height (node full_tree) \<noteq> 1
   \<and> maxElements (node full_tree) < tree_size (node full_tree) + 1 - int (length (oversized (node full_tree)))
   \<and> contents (node full_tree) = [element_a, element_b]
   \<and> fst (push full_tree item_c) = None
   \<and> contents (node (snd (push full_tree item_c))) = []
   \<and> celems (child NW (snd (push full_tree item_c))) = {#element_a#}
   \<and> celems (child NE (snd (push full_tree item_c))) = {#element_b#}
   \<and> celems (child SW (snd (push full_tree item_c))) = {#element_c#}
   \<and> celems (child SE (snd (push full_tree item_c))) = {#}"
proof -
  have r: "reachable reverted_tree \<and> reverted_tree \<in> set (subtrees reverted_tree)"
    using reachable_examples(3) subtrees_self by simp
  have c: "contents (node reverted_tree) \<noteq> []"
    by code_simp
  have rs: "reachable split_tree \<and> split_tree \<in> set (subtrees split_tree)"
    using reachable_examples(1) subtrees_self by simp
  have s: "maxElements (node split_tree) < tree_size (node split_tree) - int (length (oversized (node split_tree)))
     \<and> tree_size (node split_tree) - int (length (oversized (node split_tree))) = 3"
    by code_simp
  have "reachable full_tree"
    unfolding full_tree_def by (intro reachable.pushedAll reachable_square_tree)
  then have rf: "reachable full_tree \<and> full_tree \<in> set (subtrees full_tree)"
    using subtrees_self by simp
  have h: "validateElement item_c = Inr element_c
     \<and> length (fitting element_c full_tree) = 1
     \<and> tree_width (node full_tree) \<noteq> 1 \<and> tree_height (node full_tree) \<noteq> 1
     \<and> maxElements (node full_tree) < tree_size (node full_tree) + 1 - int (length (oversized (node full_tree)))"
    by code_simp
  have k: "contents (node full_tree) = [element_a, element_b]
     \<and> child NW full_tree = None \<and> child NE full_tree = None
     \<and> child SW full_tree = None \<and> child SE full_tree = None"
    by code_simp
  have fit: "fitting element_a full_tree = [NW] \<and> fitting element_b full_tree = [NE]
     \<and> fitting element_c full_tree = [SW]"
    by code_simp
  note th1 = contents_only_under_capacity [where t = reverted_tree and n = reverted_tree]
  note th2 = contents_only_under_capacity [where t = split_tree and n = split_tree]
  note th3 = contents_only_under_capacity [where t = full_tree and n = full_tree
      and i = item_c and e = element_c]
  from th1 r c have one: "tree_size (node reverted_tree) - int (length (oversized (node reverted_tree)))
        \<le> maxElements (node reverted_tree)"
    by blast
  from th2 rs s have two: "contents (node split_tree) = []
     \<and> int (size (celems (child NW split_tree) + celems (child NE split_tree)
                 + celems (child SW split_tree) + celems (child SE split_tree)))
        = tree_size (node split_tree) - int (length (oversized (node split_tree)))"
    by blast
  from th3 rf h obtain n' where n': "push full_tree item_c = (None, n')"
    "contents (node n') = []"
    "\<forall>d. celems (child d n')
        = celems (child d full_tree) + {#x \<in># mset (contents (node full_tree)) + {#element_c#}. fitting x full_tree = [d]#}"
    by blast
  have three: "celems (child NW n') = {#element_a#}" "celems (child NE n') = {#element_b#}"
    "celems (child SW n') = {#element_c#}" "celems (child SE n') = {#}"
    using n'(3) by (simp_all add: k fit celems_def)
  show ?thesis
    using r c one rs s two rf h k n'(1,2) three by simp
qed

subsection \<open>C7: the clone made by \<open>filter\<close>\<close>

text \<open>
  C7, as stated, fails when no element satisfies the predicate: \<open>filter\<close> then returns
  \<open>null\<close>, not a tree, and there is nothing for \<open>each\<close> to enumerate.
\<close>

theorem filter_tree_null_counterexample:
  "reachable split_tree \<and> each split_tree \<noteq> [] \<and> filter_tree split_tree (Some no_match) = Inr None"
proof -
  have "each split_tree \<noteq> [] \<and> filter_tree split_tree (Some no_match) = Inr None"
    by code_simp
  with reachable_examples(1) show ?thesis by simp
qed

text \<open>
  C7, amended: on every reachable tree \<open>filter\<close> raises nothing; when at least one element
  satisfies the predicate it yields a tree whose elements, as \<open>each\<close> enumerates them, are
  the elements of the original that satisfy the predicate, with the same count; when
  none does it yields \<open>null\<close>. The function reads the original and builds every node of
  the clone with the constructor, so the original is the same tree afterwards.
\<close>

theorem filter_tree_count:
  assumes "reachable t"
  shows "\<exists>r. filter_tree t predicate = Inr r
           \<and> (case r of
                 None \<Rightarrow> filter (keeps predicate) (each t) = []
               | Some t' \<Rightarrow> filter (keeps predicate) (each t) \<noteq> []
                    \<and> length (each t') = length (filter (keeps predicate) (each t))
                    \<and> mset (each t') = mset (filter (keeps predicate) (each t)))"
  using assms by (rule filter_tree_spec)

text \<open>
  Witness of C7: the tree of three elements and the predicate \<open>x < 50\<close>, which two of them
  satisfy.
\<close>

theorem filter_tree_count_witness:
  "reachable split_tree
   \<and> filter (keeps (Some west)) (each split_tree) = [element_a, element_c]
   \<and> (\<exists>t'. filter_tree split_tree (Some west) = Inr (Some t') \<and> length (each t') = 2)"
proof -
  have f: "filter (keeps (Some west)) (each split_tree) = [element_a, element_c]"
    by code_simp
  from filter_tree_count [OF reachable_examples(1), of "Some west"]
  obtain r where r: "filter_tree split_tree (Some west) = Inr r"
    "case r of
       None \<Rightarrow> filter (keeps (Some west)) (each split_tree) = []
     | Some t' \<Rightarrow> filter (keeps (Some west)) (each split_tree) \<noteq> []
          \<and> length (each t') = length (filter (keeps (Some west)) (each split_tree))
          \<and> mset (each t') = mset (filter (keeps (Some west)) (each split_tree))"
    by blast
  from r(2) f obtain t' where "r = Some t'" "length (each t') = 2"
    by (cases r) simp_all
  with r(1) f reachable_examples(1) show ?thesis by simp
qed

subsection \<open>C10: \<open>filter\<close> and \<open>reject\<close> return \<open>null\<close> when nothing is kept\<close>

text \<open>
  C10: on every reachable tree, \<open>filter\<close> returns \<open>null\<close> when no element is kept by the
  predicate, and \<open>reject\<close> returns \<open>null\<close> when every element satisfies the predicate, so
  that it keeps none; both return \<open>null\<close> on a tree without elements.
\<close>

theorem filter_tree_null:
  assumes "reachable t"
  shows "((\<forall>e \<in> set (each t). \<not> keeps predicate e) \<longrightarrow> filter_tree t predicate = Inr None)
       \<and> ((\<forall>e \<in> set (each t). holds predicate e) \<longrightarrow> reject t predicate = Inr None)
       \<and> (each t = [] \<longrightarrow> filter_tree t predicate = Inr None \<and> reject t predicate = Inr None)"
proof -
  have none: "filter_tree t p = Inr None" if "\<forall>e \<in> set (each t). \<not> keeps p e" for p
  proof -
    from filter_tree_spec [OF assms, of p]
    obtain r where r: "filter_tree t p = Inr r"
      "case r of
         None \<Rightarrow> filter (keeps p) (each t) = []
       | Some t' \<Rightarrow> filter (keeps p) (each t) \<noteq> []
            \<and> length (each t') = length (filter (keeps p) (each t))
            \<and> mset (each t') = mset (filter (keeps p) (each t))"
      by blast
    from that have "filter (keeps p) (each t) = []"
      by (simp add: filter_empty_conv)
    with r(2) have "r = None"
      by (cases r) simp_all
    with r(1) show ?thesis by simp
  qed
  have rej: "reject t predicate = Inr None" if "\<forall>e \<in> set (each t). holds predicate e"
    unfolding reject_def using that by (intro none) (simp add: keeps_def)
  show ?thesis
    using none [of predicate] rej by auto
qed

text \<open>
  Witness of C10: the tree of three elements with a predicate that none satisfies, the
  same tree with \<open>reject\<close> and a predicate that all satisfy, and the empty tree.
\<close>

theorem filter_tree_null_witness:
  "reachable split_tree
   \<and> list_all (\<lambda>e. \<not> keeps (Some no_match) e) (each split_tree)
   \<and> filter_tree split_tree (Some no_match) = Inr None
   \<and> list_all (holds (Some every)) (each split_tree)
   \<and> reject split_tree (Some every) = Inr None
   \<and> reachable square_tree \<and> each square_tree = []
   \<and> filter_tree square_tree None = Inr None \<and> reject square_tree None = Inr None"
proof -
  have a: "list_all (\<lambda>e. \<not> keeps (Some no_match) e) (each split_tree)"
    and b: "list_all (holds (Some every)) (each split_tree)"
    and c: "each square_tree = []"
    by code_simp+
  from a have a': "\<forall>e \<in> set (each split_tree). \<not> keeps (Some no_match) e"
    by (simp add: list_all_iff)
  from b have b': "\<forall>e \<in> set (each split_tree). holds (Some every) e"
    by (simp add: list_all_iff)
  have "filter_tree split_tree (Some no_match) = Inr None"
    using filter_tree_null [OF reachable_examples(1), of "Some no_match"] a' by blast
  moreover have "reject split_tree (Some every) = Inr None"
    using filter_tree_null [OF reachable_examples(1), of "Some every"] b' by blast
  moreover have "filter_tree square_tree None = Inr None \<and> reject square_tree None = Inr None"
    using filter_tree_null [OF reachable_square_tree, of None] c by blast
  ultimately show ?thesis
    using a b c reachable_examples(1) reachable_square_tree by blast
qed

end
